theory Spec2Isabelle
  imports Main "HOL-Library.AList"
begin

section \<open>Payload values and the object store\<close>

text \<open>
  A mock payload is a JavaScript object graph and may contain reference cycles, so
  objects and arrays live in a store and values refer to them by address. The objects
  of a payload are plain: an object has the prototype \<open>Object.prototype\<close> and an array
  the prototype \<open>Array.prototype\<close>, as object and array literals and the results of
  \<open>JSON.parse\<close> have. The prototypes are not objects of the store; \<open>JFun p\<close> is the
  built-in function that is the value of the property path \<open>p\<close>, for instance
  \<open>Object.prototype.toString\<close>, which is what a read of \<open>toString\<close> on a plain
  object that owns no such property gives.
\<close>

datatype jsval =
    JUndefined
  | JNull
  | JBool bool
  | JNum int
  | JStr string
  | JRef nat
  | JFun string

datatype hobj =
    HObj "(string \<times> jsval) list"
  | HArr "jsval list"

type_synonym heap = "nat \<Rightarrow> hobj option"

text \<open>Decimal rendering of an array index, as a template literal prints it.\<close>

function show_nat :: "nat \<Rightarrow> string" where
  "show_nat n =
     (if n < 10 then [''0123456789'' ! n]
      else show_nat (n div 10) @ [''0123456789'' ! (n mod 10)])"
  by pat_completeness auto
termination
  by (relation "measure (\<lambda>n. n)") auto

declare show_nat.simps [simp del]

text \<open>
  The own properties of a stored object. An array owns \<open>length\<close> and its indices.
\<close>

fun own_property :: "hobj \<Rightarrow> string \<Rightarrow> jsval option" where
  "own_property (HObj ps) k = map_of ps k"
| "own_property (HArr xs) k =
     (if k = ''length'' then Some (JNum (int (length xs)))
      else map_of (zip (map show_nat [0..<length xs]) xs) k)"

text \<open>
  The properties that a plain object and an array inherit: the function-valued
  properties of \<open>Object.prototype\<close> and of \<open>Array.prototype\<close> (ECMAScript 2023). The
  accessor \<open>__proto__\<close> is left out: its value is the prototype object itself, and an
  assignment to it sets the prototype instead of a property, so a field of that name
  is outside the model and the statements about keys exclude it.
\<close>

definition objectPrototype :: "string list" where
  "objectPrototype =
     [''constructor'', ''hasOwnProperty'', ''isPrototypeOf'', ''propertyIsEnumerable'',
      ''toLocaleString'', ''toString'', ''valueOf'', ''__defineGetter__'',
      ''__defineSetter__'', ''__lookupGetter__'', ''__lookupSetter__'']"

definition arrayPrototype :: "string list" where
  "arrayPrototype =
     [''constructor'', ''at'', ''concat'', ''copyWithin'', ''entries'', ''every'', ''fill'',
      ''filter'', ''find'', ''findIndex'', ''findLast'', ''findLastIndex'', ''flat'',
      ''flatMap'', ''forEach'', ''includes'', ''indexOf'', ''join'', ''keys'',
      ''lastIndexOf'', ''map'', ''pop'', ''push'', ''reduce'', ''reduceRight'', ''reverse'',
      ''shift'', ''slice'', ''some'', ''sort'', ''splice'', ''toLocaleString'',
      ''toReversed'', ''toSorted'', ''toSpliced'', ''toString'', ''unshift'', ''values'',
      ''with'']"

fun inherited :: "hobj \<Rightarrow> string \<Rightarrow> jsval option" where
  "inherited (HObj ps) k =
     (if k \<in> set objectPrototype then Some (JFun (''Object.prototype.'' @ k)) else None)"
| "inherited (HArr xs) k =
     (if k \<in> set arrayPrototype then Some (JFun (''Array.prototype.'' @ k))
      else if k \<in> set objectPrototype then Some (JFun (''Object.prototype.'' @ k))
      else None)"

text \<open>
  \<open>data.hasOwnProperty(k)\<close>, and \<open>data[k]\<close> for the object at address \<open>a\<close>: the own
  property, or else the inherited one, or else undefined. \<open>hasOwnProperty\<close> is the
  method of \<open>Object.prototype\<close>: a payload object that has an own property of that
  name, which would take its place in the call, is outside the model.
\<close>

definition hasOwnProperty :: "heap \<Rightarrow> nat \<Rightarrow> string \<Rightarrow> bool" where
  "hasOwnProperty h a k =
     (case h a of None \<Rightarrow> False
      | Some ob \<Rightarrow> (case own_property ob k of None \<Rightarrow> False | Some v \<Rightarrow> True))"

definition get_prop :: "heap \<Rightarrow> nat \<Rightarrow> string \<Rightarrow> jsval" where
  "get_prop h a k =
     (case h a of None \<Rightarrow> JUndefined
      | Some ob \<Rightarrow>
          (case own_property ob k of
             Some v \<Rightarrow> v
           | None \<Rightarrow> (case inherited ob k of None \<Rightarrow> JUndefined | Some v \<Rightarrow> v)))"

text \<open>\<open>Array.isArray(v)\<close>, returning the elements of the array.\<close>

definition array_items :: "heap \<Rightarrow> jsval \<Rightarrow> jsval list option" where
  "array_items h v =
     (case v of
        JRef a \<Rightarrow> (case h a of Some (HArr xs) \<Rightarrow> Some xs | _ \<Rightarrow> None)
      | _ \<Rightarrow> None)"

text \<open>
  A projected value: an object or array that the projection creates, or a payload
  value copied as it is (a reference stays a reference into the payload store).
\<close>

datatype rval =
    RVal jsval
  | RObj "(string \<times> rval) list"
  | RArr "rval list"

section \<open>Documents\<close>

datatype ValueNode = BooleanValue bool | Variable string

datatype DirectiveNode =
  DirectiveNode (directiveName: string) (arguments: "(string \<times> ValueNode) list")

datatype SelectionNode =
    FIELD "string option" string "DirectiveNode list" "SelectionNode list option"
  | FRAGMENT_SPREAD string "DirectiveNode list"
  | INLINE_FRAGMENT "string option" "DirectiveNode list" "SelectionNode list"

datatype FieldNode =
  FieldNode (fieldAlias: "string option") (fieldName: string)
    (fieldDirectives: "DirectiveNode list") (selectionSet: "SelectionNode list option")

datatype OperationTypeNode = QUERY | MUTATION | SUBSCRIPTION

record FragmentDefinitionNode =
  fragmentName :: string
  typeCondition :: string
  fragmentSelectionSet :: "SelectionNode list"

record OperationDefinitionNode =
  operation :: OperationTypeNode
  operationName :: "string option"
  operationSelectionSet :: "SelectionNode list"

datatype DefinitionNode =
    OPERATION_DEFINITION OperationDefinitionNode
  | FRAGMENT_DEFINITION FragmentDefinitionNode
  | OTHER_DEFINITION

type_synonym DocumentNode = "DefinitionNode list"

type_synonym fragments = "(string \<times> FragmentDefinitionNode) list"
type_synonym operations = "(string \<times> OperationDefinitionNode) list"
type_synonym variables = "(string \<times> jsval) list"

text \<open>
  The type catalogue of a schema: the names \<open>getType\<close> resolves and the root type of
  each operation kind; a type is identified with its name. Interfaces and unions are
  left out, so a type condition matches a runtime type only by being that type. The
  module's private \<open>dummySchema\<close>, which is \<open>new GraphQLSchema({})\<close>, is the default
  of the \<open>schema\<close> parameter and is compared by identity, so the parameter is an option
  and \<open>None\<close> stands for the dummy schema.

  Every schema of the graphql package, the empty one too, holds the types that the
  specified directives and the introspection type \<open>__Schema\<close> refer to. These are the
  names that the dummy schema resolves; it has no root type.
\<close>

record GraphQLSchema =
  typeNames :: "string list"
  rootTypes :: "(OperationTypeNode \<times> string) list"

definition specifiedTypeNames :: "string list" where
  "specifiedTypeNames =
     [''String'', ''Boolean'', ''__Schema'', ''__Type'', ''__TypeKind'', ''__Field'',
      ''__InputValue'', ''__EnumValue'', ''__Directive'', ''__DirectiveLocation'']"

definition getType :: "GraphQLSchema option \<Rightarrow> string \<Rightarrow> string option" where
  "getType schema n =
     (case schema of
        None \<Rightarrow> (if n \<in> set specifiedTypeNames then Some n else None)
      | Some s \<Rightarrow> (if n \<in> set (typeNames s) then Some n else None))"

definition getRootType :: "GraphQLSchema option \<Rightarrow> OperationTypeNode \<Rightarrow> string option" where
  "getRootType schema ot =
     (case schema of None \<Rightarrow> None | Some s \<Rightarrow> map_of (rootTypes s) ot)"

section \<open>Field collection\<close>

text \<open>
  Modelled from the spec: \<open>collectFields\<close> is imported from the graphql package and is
  not part of the sources. The definitions follow section 4.4, steps 1 and 2: a field is
  kept unless a \<open>@skip\<close> directive evaluates to true or an \<open>@include\<close> directive
  evaluates to false against the runtime variables; an inline fragment or a named
  fragment is spliced in when its type condition matches the runtime type; a named
  fragment is spliced in at most once per collection, and a spread that names no
  fragment of the document is skipped. The fragment table that the module passes is
  an object literal, so this holds for the names that \<open>Object.prototype\<close> does not
  have; a spread of \<open>constructor\<close> or \<open>toString\<close> in a document that defines no such
  fragment, which validation rejects, makes the package throw a \<open>TypeError\<close> and is
  outside the model.

  The match of a type condition is the one of the package, which the tests of the
  sources rely on: a fragment without type condition matches, and otherwise the type
  that the schema resolves the condition to is compared with the runtime type by
  identity, where either may be undefined. So without a runtime type a fragment is
  spliced in exactly when the schema does not resolve its type condition, which is
  how the dummy schema combines the branches of the types a payload speaks of.
\<close>


definition directiveIf :: "variables \<Rightarrow> DirectiveNode \<Rightarrow> jsval" where
  "directiveIf vars d =
     (case map_of (arguments d) ''if'' of
        None \<Rightarrow> JUndefined
      | Some (BooleanValue b) \<Rightarrow> JBool b
      | Some (Variable v) \<Rightarrow> (case map_of vars v of None \<Rightarrow> JUndefined | Some x \<Rightarrow> x))"

definition directiveKeeps :: "variables \<Rightarrow> DirectiveNode \<Rightarrow> bool" where
  "directiveKeeps vars d =
     (if directiveName d = ''skip'' then directiveIf vars d \<noteq> JBool True
      else if directiveName d = ''include'' then directiveIf vars d \<noteq> JBool False
      else True)"

definition shouldIncludeNode :: "variables \<Rightarrow> DirectiveNode list \<Rightarrow> bool" where
  "shouldIncludeNode vars ds = list_all (directiveKeeps vars) ds"

definition doesFragmentConditionMatch ::
  "GraphQLSchema option \<Rightarrow> string option \<Rightarrow> string option \<Rightarrow> bool" where
  "doesFragmentConditionMatch schema tc runtimeType =
     (case tc of None \<Rightarrow> True | Some t \<Rightarrow> getType schema t = runtimeType)"

definition getFieldEntryKey :: "FieldNode \<Rightarrow> string" where
  "getFieldEntryKey f = (case fieldAlias f of Some a \<Rightarrow> a | None \<Rightarrow> fieldName f)"

type_synonym fieldMap = "(string \<times> FieldNode list) list"

fun addField :: "FieldNode \<Rightarrow> fieldMap \<Rightarrow> fieldMap" where
  "addField f [] = [(getFieldEntryKey f, [f])]"
| "addField f ((k, fs) # m) =
     (if k = getFieldEntryKey f then (k, fs @ [f]) # m else (k, fs) # addField f m)"

function collectFieldsImpl ::
  "GraphQLSchema option \<Rightarrow> fragments \<Rightarrow> variables \<Rightarrow> string option \<Rightarrow>
   SelectionNode list \<Rightarrow> fieldMap \<times> string set \<Rightarrow> fieldMap \<times> string set" where
  "collectFieldsImpl schema frags vars rt [] st = st"
| "collectFieldsImpl schema frags vars rt (FIELD al n ds ss # rest) st =
     (if shouldIncludeNode vars ds
      then collectFieldsImpl schema frags vars rt rest
             (addField (FieldNode al n ds ss) (fst st), snd st)
      else collectFieldsImpl schema frags vars rt rest st)"
| "collectFieldsImpl schema frags vars rt (INLINE_FRAGMENT tc ds sub # rest) st =
     (if shouldIncludeNode vars ds \<and> doesFragmentConditionMatch schema tc rt
      then collectFieldsImpl schema frags vars rt rest
             (collectFieldsImpl schema frags vars rt sub st)
      else collectFieldsImpl schema frags vars rt rest st)"
| "collectFieldsImpl schema frags vars rt (FRAGMENT_SPREAD n ds # rest) st =
     (if n \<in> snd st then collectFieldsImpl schema frags vars rt rest st
      else if shouldIncludeNode vars ds
      then (case map_of frags n of
              None \<Rightarrow> collectFieldsImpl schema frags vars rt rest (fst st, insert n (snd st))
            | Some fragment \<Rightarrow>
                if doesFragmentConditionMatch schema (Some (typeCondition fragment)) rt
                then collectFieldsImpl schema frags vars rt rest
                       (collectFieldsImpl schema frags vars rt
                          (fragmentSelectionSet fragment) (fst st, insert n (snd st)))
                else collectFieldsImpl schema frags vars rt rest (fst st, insert n (snd st)))
      else collectFieldsImpl schema frags vars rt rest st)"
  by pat_completeness auto

lemma collectFieldsImpl_visited:
  "collectFieldsImpl_dom (schema, frags, vars, rt, sels, st) \<Longrightarrow>
   snd st \<subseteq> snd (collectFieldsImpl schema frags vars rt sels st)"
proof (induction schema frags vars rt sels st rule: collectFieldsImpl.pinduct)
  case (1 schema frags vars rt st)
  then show ?case by (simp add: collectFieldsImpl.psimps)
next
  case (2 schema frags vars rt al n ds ss rest st)
  then show ?case by (auto simp: collectFieldsImpl.psimps)
next
  case (3 schema frags vars rt tc ds sub rest st)
  then show ?case by (simp add: collectFieldsImpl.psimps) blast
next
  case (4 schema frags vars rt n ds rest st)
  then show ?case
    by (simp add: collectFieldsImpl.psimps split: option.splits) blast
qed

lemma card_unvisited_mono:
  "v \<subseteq> w \<Longrightarrow> card (fst ` set frags - w) \<le> card (fst ` set frags - v)"
  by (rule card_mono) auto

lemma card_unvisited_insert:
  "map_of frags n = Some f \<Longrightarrow> n \<notin> v \<Longrightarrow>
   card (fst ` set frags - insert n v) < card (fst ` set frags - v)"
proof -
  assume a: "map_of frags n = Some f" and b: "n \<notin> v"
  from a have "n \<in> fst ` set frags" by (metis map_of_eq_None_iff option.distinct(1))
  with b have "fst ` set frags - insert n v \<subset> fst ` set frags - v" by auto
  then show ?thesis by (intro psubset_card_mono) auto
qed

termination collectFieldsImpl
proof (relation "inv_image (less_than <*lex*> less_than)
    (\<lambda>(schema, frags, vars, rt, sels, st).
       (card (fst ` set frags - snd st), size_list size sels))", goal_cases)
  case 1
  then show ?case by (intro wf_inv_image wf_lex_prod wf_less_than)
next
  case (2 schema frags vars rt al n ds ss rest st)
  then show ?case by simp
next
  case (3 schema frags vars rt al n ds ss rest st)
  then show ?case by simp
next
  case (4 schema frags vars rt tc ds sub rest st)
  then show ?case by simp
next
  case (5 schema frags vars rt tc ds sub rest st)
  then show ?case
    using collectFieldsImpl_visited [OF 5(2)]
          card_unvisited_mono [of "snd st" _ frags]
    by (auto simp: le_less)
next
  case (6 schema frags vars rt tc ds sub rest st)
  then show ?case by simp
next
  case (7 schema frags vars rt n ds rest st)
  then show ?case by simp
next
  case (8 schema frags vars rt n ds rest st)
  then show ?case
    using card_unvisited_mono [of "snd st" "insert n (snd st)" frags]
    by (auto simp: le_less)
next
  case (9 schema frags vars rt n ds rest st x2)
  then show ?case using card_unvisited_insert [of frags n x2 "snd st"] by simp
next
  case (10 schema frags vars rt n ds rest st x2)
  then show ?case
    using collectFieldsImpl_visited [OF 10(5)]
          card_unvisited_mono [of "snd st" _ frags]
    by (auto simp: le_less)
next
  case (11 schema frags vars rt n ds rest st x2)
  then show ?case
    using card_unvisited_mono [of "snd st" "insert n (snd st)" frags]
    by (auto simp: le_less)
next
  case (12 schema frags vars rt n ds rest st)
  then show ?case by simp
qed


text \<open>\<open>Array.from(fieldMap.values())\<close>, each entry's nodes in turn.\<close>

definition fieldNodes :: "fieldMap \<Rightarrow> FieldNode list" where
  "fieldNodes fieldMap = concat (map snd fieldMap)"

definition collectFields ::
  "GraphQLSchema option \<Rightarrow> fragments \<Rightarrow> variables \<Rightarrow> string option \<Rightarrow>
   SelectionNode list \<Rightarrow> fieldMap" where
  "collectFields schema frags vars rt sels =
     fst (collectFieldsImpl schema frags vars rt sels ([], {}))"

section \<open>Projection: pickOperationFields with an optional schema\<close>

text \<open>
  \<open>src/utils/internal/pickOperationFields.ts\<close>. A thrown \<open>Error\<close> is a value of
  \<open>error\<close>, named after its message. The recursion follows the selection sets while
  the payload may be cyclic, so the functions take fuel: \<open>None\<close> means that the call
  depth exceeded the fuel.
\<close>

datatype error =
    UnableToInferObjectType string
  | UnableToFindOperation string
  | UnableToFindAnonymousQuery
  | TypeError

text \<open>
  The runtime type of the object at address \<open>a\<close>, inferred from its \<open>__typename\<close>.
\<close>

definition runtimeObjectOf :: "heap \<Rightarrow> GraphQLSchema option \<Rightarrow> nat \<Rightarrow> string option" where
  "runtimeObjectOf h schema a =
     (case get_prop h a ''__typename'' of
        JStr t \<Rightarrow> getType schema t
      | _ \<Rightarrow> None)"

function pickField ::
    "nat \<Rightarrow> heap \<Rightarrow> GraphQLSchema option \<Rightarrow> fragments \<Rightarrow> variables \<Rightarrow>
     string \<Rightarrow> FieldNode \<Rightarrow> jsval \<Rightarrow> (error + rval) option"
  and pickSelectionSet ::
    "nat \<Rightarrow> heap \<Rightarrow> GraphQLSchema option \<Rightarrow> fragments \<Rightarrow> variables \<Rightarrow>
     string \<Rightarrow> nat \<Rightarrow> SelectionNode list \<Rightarrow> string option \<Rightarrow> (error + rval) option"
  and pickNodes ::
    "nat \<Rightarrow> heap \<Rightarrow> GraphQLSchema option \<Rightarrow> fragments \<Rightarrow> variables \<Rightarrow>
     string \<Rightarrow> nat \<Rightarrow> FieldNode list \<Rightarrow> (string \<times> rval) list \<Rightarrow> (error + rval) option"
  and pickItems ::
    "nat \<Rightarrow> heap \<Rightarrow> GraphQLSchema option \<Rightarrow> fragments \<Rightarrow> variables \<Rightarrow>
     string \<Rightarrow> FieldNode \<Rightarrow> jsval list \<Rightarrow> nat \<Rightarrow> (error + rval list) option"
where
  "pickField n h schema frags vars fieldPath fieldNode fieldData =
     (case selectionSet fieldNode of
        None \<Rightarrow> Some (Inr (RVal fieldData))
      | Some sels \<Rightarrow>
          (case fieldData of
             JRef a \<Rightarrow>
               (let runtimeObject = runtimeObjectOf h schema a
                in if schema \<noteq> None \<and> runtimeObject = None
                   then Some (Inl (UnableToInferObjectType fieldPath))
                   else pickSelectionSet n h schema frags vars fieldPath a sels runtimeObject)
           | _ \<Rightarrow> Some (Inr (RVal fieldData))))"
| "pickSelectionSet 0 h schema frags vars path a sels runtimeObject = None"
| "pickSelectionSet (Suc n) h schema frags vars path a sels runtimeObject =
     pickNodes n h schema frags vars path a
       (fieldNodes (collectFields schema frags vars runtimeObject sels)) []"
| "pickNodes n h schema frags vars path a [] pickedData = Some (Inr (RObj pickedData))"
| "pickNodes n h schema frags vars path a (fieldNode # rest) pickedData =
     (let fieldData = get_prop h a (fieldName fieldNode);
          picked =
            (case array_items h fieldData of
               Some items \<Rightarrow>
                 (case pickItems n h schema frags vars
                         (path @ ''.'' @ fieldName fieldNode) fieldNode items 0 of
                    None \<Rightarrow> None
                  | Some (Inl e) \<Rightarrow> Some (Inl e)
                  | Some (Inr vs) \<Rightarrow> Some (Inr (RArr vs)))
             | None \<Rightarrow>
                 pickField n h schema frags vars
                   (path @ ''.'' @ fieldName fieldNode) fieldNode fieldData)
      in case picked of
           None \<Rightarrow> None
         | Some (Inl e) \<Rightarrow> Some (Inl e)
         | Some (Inr v) \<Rightarrow>
             pickNodes n h schema frags vars path a rest
               (AList.update (fieldName fieldNode) v pickedData))"
| "pickItems n h schema frags vars prefix fieldNode [] i = Some (Inr [])"
| "pickItems n h schema frags vars prefix fieldNode (x # xs) i =
     (case pickField n h schema frags vars
             (prefix @ ''['' @ show_nat i @ '']'') fieldNode x of
        None \<Rightarrow> None
      | Some (Inl e) \<Rightarrow> Some (Inl e)
      | Some (Inr v) \<Rightarrow>
          (case pickItems n h schema frags vars prefix fieldNode xs (Suc i) of
             None \<Rightarrow> None
           | Some (Inl e) \<Rightarrow> Some (Inl e)
           | Some (Inr vs) \<Rightarrow> Some (Inr (v # vs))))"

  by pat_completeness auto
termination
  by (relation "inv_image (less_than <*lex*> less_than <*lex*> less_than)
        (\<lambda>x. case x of
           Inl (Inl (n, h, schema, frags, vars, p, f, d)) \<Rightarrow> (n, 1::nat, 0::nat)
         | Inl (Inr (n, h, schema, frags, vars, p, a, sels, rt)) \<Rightarrow> (n, 0, 0)
         | Inr (Inl (n, h, schema, frags, vars, p, a, fns, acc)) \<Rightarrow> (n, 3, length fns)
         | Inr (Inr (n, h, schema, frags, vars, p, f, items, i)) \<Rightarrow> (n, 2, length items))")
     auto

text \<open>
  \<open>extractDefinitions\<close>: the fragment and operation tables of a document. Each table is
  filled in document order by assignment to a key, anonymous operations under the
  reserved key.

  The operation table is an object literal, so \<open>operations[name]\<close> for a name that
  the table does not own and \<open>Object.prototype\<close> has (\<open>__proto__\<close> too) is not
  undefined: the lookup succeeds with a value that has no selection set, and
  \<open>collectFields\<close> then throws a \<open>TypeError\<close>. A definition named \<open>__proto__\<close> is found
  again under that name, as the tables here have it; that the assignment makes it
  the prototype of the table, so that the names of its own properties are found too,
  is outside the model.
\<close>

definition anonymousOperationKey :: string where
  "anonymousOperationKey = ''__anonymous_operation''"

fun fragmentDefinitions :: "DocumentNode \<Rightarrow> FragmentDefinitionNode list" where
  "fragmentDefinitions [] = []"
| "fragmentDefinitions (FRAGMENT_DEFINITION f # ds) = f # fragmentDefinitions ds"
| "fragmentDefinitions (d # ds) = fragmentDefinitions ds"

fun operationDefinitions :: "DocumentNode \<Rightarrow> OperationDefinitionNode list" where
  "operationDefinitions [] = []"
| "operationDefinitions (OPERATION_DEFINITION d # ds) = d # operationDefinitions ds"
| "operationDefinitions (d # ds) = operationDefinitions ds"

definition operationKey :: "string option \<Rightarrow> string" where
  "operationKey name =
     (case name of None \<Rightarrow> anonymousOperationKey
      | Some n \<Rightarrow> (if n = [] then anonymousOperationKey else n))"

definition extractDefinitions :: "DocumentNode \<Rightarrow> fragments \<times> operations" where
  "extractDefinitions documentNode =
     (fold (\<lambda>definition fragments. AList.update (fragmentName definition) definition fragments)
        (fragmentDefinitions documentNode) [],
      fold (\<lambda>definition operations.
              AList.update (operationKey (operationName definition)) definition operations)
        (operationDefinitions documentNode) [])"

definition inheritedKey :: "string \<Rightarrow> bool" where
  "inheritedKey k = (k \<in> set objectPrototype \<or> k = ''__proto__'')"

definition pickOperationFields ::
  "nat \<Rightarrow> heap \<Rightarrow> nat \<Rightarrow> DocumentNode \<Rightarrow> string option \<Rightarrow> variables option \<Rightarrow>
   GraphQLSchema option \<Rightarrow> (error + rval) option" where
  "pickOperationFields fuel h data documentNode opName vars schema =
     (case extractDefinitions documentNode of
        (fragments, operations) \<Rightarrow>
          (case map_of operations (operationKey opName) of
             None \<Rightarrow>
               Some (Inl (if inheritedKey (operationKey opName) then TypeError
                          else (case opName of
                                  None \<Rightarrow> UnableToFindAnonymousQuery
                                | Some n \<Rightarrow> (if n = [] then UnableToFindAnonymousQuery
                                            else UnableToFindOperation n))))
           | Some opDef \<Rightarrow>
               pickSelectionSet fuel h schema fragments
                 (case vars of None \<Rightarrow> [] | Some vs \<Rightarrow> vs)
                 ''data'' data (operationSelectionSet opDef)
                 (getRootType schema (operation opDef))))"


section \<open>Projection: the variant without schema support\<close>

text \<open>
  The \<open>pickOperationFields\<close> module that takes no schema: it collects fields against
  the dummy schema with no runtime type, guards every field with \<open>hasOwnProperty\<close>
  and throws nothing while it recurses. Its functions carry the suffix \<open>_plain\<close>.
\<close>

function pickField_plain ::
    "nat \<Rightarrow> heap \<Rightarrow> fragments \<Rightarrow> variables \<Rightarrow> FieldNode \<Rightarrow> jsval \<Rightarrow> rval option"
  and pickSelectionSet_plain ::
    "nat \<Rightarrow> heap \<Rightarrow> fragments \<Rightarrow> variables \<Rightarrow> nat \<Rightarrow> SelectionNode list \<Rightarrow> rval option"
  and pickNodes_plain ::
    "nat \<Rightarrow> heap \<Rightarrow> fragments \<Rightarrow> variables \<Rightarrow> nat \<Rightarrow> FieldNode list \<Rightarrow>
     (string \<times> rval) list \<Rightarrow> rval option"
  and pickItems_plain ::
    "nat \<Rightarrow> heap \<Rightarrow> fragments \<Rightarrow> variables \<Rightarrow> FieldNode \<Rightarrow> jsval list \<Rightarrow> rval list option"
where
  "pickField_plain n h frags vars fieldNode fieldData =
     (case selectionSet fieldNode of
        None \<Rightarrow> Some (RVal fieldData)
      | Some sels \<Rightarrow>
          (case fieldData of
             JRef a \<Rightarrow> pickSelectionSet_plain n h frags vars a sels
           | _ \<Rightarrow> Some (RVal fieldData)))"
| "pickSelectionSet_plain 0 h frags vars a sels = None"
| "pickSelectionSet_plain (Suc n) h frags vars a sels =
     pickNodes_plain n h frags vars a
       (fieldNodes (collectFields None frags vars None sels)) []"
| "pickNodes_plain n h frags vars a [] pickedData = Some (RObj pickedData)"
| "pickNodes_plain n h frags vars a (fieldNode # rest) pickedData =
     (if hasOwnProperty h a (fieldName fieldNode)
      then (let fieldData = get_prop h a (fieldName fieldNode);
                picked =
                  (case array_items h fieldData of
                     Some items \<Rightarrow>
                       (case pickItems_plain n h frags vars fieldNode items of
                          None \<Rightarrow> None
                        | Some vs \<Rightarrow> Some (RArr vs))
                   | None \<Rightarrow> pickField_plain n h frags vars fieldNode fieldData)
            in case picked of
                 None \<Rightarrow> None
               | Some v \<Rightarrow>
                   pickNodes_plain n h frags vars a rest
                     (AList.update (fieldName fieldNode) v pickedData))
      else pickNodes_plain n h frags vars a rest pickedData)"
| "pickItems_plain n h frags vars fieldNode [] = Some []"
| "pickItems_plain n h frags vars fieldNode (x # xs) =
     (case pickField_plain n h frags vars fieldNode x of
        None \<Rightarrow> None
      | Some v \<Rightarrow>
          (case pickItems_plain n h frags vars fieldNode xs of
             None \<Rightarrow> None
           | Some vs \<Rightarrow> Some (v # vs)))"
  by pat_completeness auto
termination
  by (relation "inv_image (less_than <*lex*> less_than <*lex*> less_than)
        (\<lambda>x. case x of
           Inl (Inl (n, h, frags, vars, f, d)) \<Rightarrow> (n, 1::nat, 0::nat)
         | Inl (Inr (n, h, frags, vars, a, sels)) \<Rightarrow> (n, 0, 0)
         | Inr (Inl (n, h, frags, vars, a, fns, acc)) \<Rightarrow> (n, 3, length fns)
         | Inr (Inr (n, h, frags, vars, f, items)) \<Rightarrow> (n, 2, length items))")
     auto

definition pickOperationFields_plain ::
  "nat \<Rightarrow> heap \<Rightarrow> nat \<Rightarrow> DocumentNode \<Rightarrow> string option \<Rightarrow> variables option \<Rightarrow>
   (error + rval) option" where
  "pickOperationFields_plain fuel h data documentNode opName vars =
     (case extractDefinitions documentNode of
        (fragments, operations) \<Rightarrow>
          (case map_of operations (operationKey opName) of
             None \<Rightarrow>
               Some (Inl (if inheritedKey (operationKey opName) then TypeError
                          else (case opName of
                                  None \<Rightarrow> UnableToFindAnonymousQuery
                                | Some n \<Rightarrow> (if n = [] then UnableToFindAnonymousQuery
                                            else UnableToFindOperation n))))
           | Some opDef \<Rightarrow>
               (case pickSelectionSet_plain fuel h fragments
                       (case vars of None \<Rightarrow> [] | Some vs \<Rightarrow> vs)
                       data (operationSelectionSet opDef) of
                  None \<Rightarrow> None
                | Some r \<Rightarrow> Some (Inr r))))"


section \<open>Document analysis: parseDocumentNode\<close>

text \<open>
  The \<open>parseDocumentNode\<close> that resolves the operation itself (the
  \<open>parseGraphQLRequest\<close> module without a document in its result). A thrown
  \<open>Error\<close> is its message.
\<close>

datatype ParsedGraphQLQuery =
  ParsedGraphQLQuery (parsedOperationType: OperationTypeNode) (parsedOperationName: "string option")

text \<open>Truthiness of an optional name, and a name printed inside a template literal.\<close>

definition truthyName :: "string option \<Rightarrow> bool" where
  "truthyName name = (case name of None \<Rightarrow> False | Some n \<Rightarrow> n \<noteq> [])"

definition printName :: "string option \<Rightarrow> string" where
  "printName name = (case name of None \<Rightarrow> ''null'' | Some n \<Rightarrow> n)"

text \<open>
  \<open>def.name?.value === operationName\<close>: the name of a definition is a string or
  undefined, the passed operation name is a string or null, so the two are strictly
  equal only when both are strings.
\<close>

definition sameName :: "string option \<Rightarrow> string option \<Rightarrow> bool" where
  "sameName defName opName =
     (case defName of None \<Rightarrow> False
      | Some a \<Rightarrow> (case opName of None \<Rightarrow> False | Some b \<Rightarrow> a = b))"

definition parseDocumentNode :: "DocumentNode \<Rightarrow> string option \<Rightarrow> string + ParsedGraphQLQuery" where
  \<open>parseDocumentNode ast opName =
     (let operationDefs = operationDefinitions ast in
      case operationDefs of
        [operationDef] \<Rightarrow>
          (let defOperationName = operationName operationDef in
           if truthyName defOperationName \<and> \<not> sameName defOperationName opName
           then Inl (''Operation definition "'' @ printName defOperationName @
                     ''" does not match passed operation name "'' @ printName opName @ ''"'')
           else if \<not> truthyName defOperationName \<and> opName \<noteq> None
           then Inl (''Anonymous operation definition does not match passed operation name "'' @
                     printName opName @ ''"'')
           else Inr (ParsedGraphQLQuery (operation operationDef) (operationName operationDef)))
      | _ \<Rightarrow>
          (case find (\<lambda>def. \<not> truthyName (operationName def)) operationDefs of
             Some anonymous \<Rightarrow> Inl ''Anonymous operations must be the only defined operation.''
           | None \<Rightarrow>
               (case find (\<lambda>def. sameName (operationName def) opName) operationDefs of
                  None \<Rightarrow>
                    Inl (''Multiple operation definitions found but none match passed operation name "'' @
                         printName opName @ ''"'')
                | Some operationDef \<Rightarrow>
                    Inr (ParsedGraphQLQuery (operation operationDef)
                           (operationName operationDef)))))\<close>

section \<open>Requests and parseGraphQLRequest\<close>

text \<open>
  A request body, a JSON text once parsed and a variables object are JSON-like trees;
  \<open>JsFile\<close> is an uploaded file of a multipart body.
\<close>

datatype json =
    JsUndefined
  | JsNull
  | JsBool bool
  | JsNum int
  | JsString string
  | JsArray "json list"
  | JsObject "(string \<times> json) list"
  | JsFile string




record URL =
  href :: string
  searchParams :: "(string \<times> string) list"


record MockedRequest =
  requestMethod :: string
  requestUrl :: URL
  requestBody :: json


datatype ParsedGraphQLRequest =
  ParsedGraphQLRequest (document: DocumentNode) (operationType: OperationTypeNode)
    (resolvedOperationName: "string option") (variableValues: json)

text \<open>
  What \<open>parseGraphQLRequest\<close> calls and the sources do not hold is a parameter: the
  parser of the graphql package (a syntax error is the message of the thrown error),
  its coercion of the variable values of an operation (the coerced values or the
  messages of the errors), \<open>jsonParse\<close> (undefined for a text that is no JSON),
  \<open>getPublicUrlFromRequest\<close>, and the outcome of \<open>extractMultipartVariables\<close> on the
  variables, the parsed map and the file parts of a multipart body, which is the
  variables with the files put in or the message of the error it throws.
\<close>

record deps =
  parse :: "json \<Rightarrow> string + DocumentNode"
  getVariableValues :: "OperationDefinitionNode \<Rightarrow> json \<Rightarrow> string list + json"
  jsonParse :: "json \<Rightarrow> json"
  getPublicUrlFromRequest :: "MockedRequest \<Rightarrow> string"
  extractMultipartVariables :: "json \<Rightarrow> json \<Rightarrow> (string \<times> json) list \<Rightarrow> string + json"

fun joinLines :: "string list \<Rightarrow> string" where
  "joinLines [] = []"
| "joinLines [m] = m"
| "joinLines (m # ms) = m @ [CHR 0x0A] @ joinLines ms"

text \<open>A value printed inside a template literal, and \<open>v == null\<close>.\<close>

definition show_int :: "int \<Rightarrow> string" where
  "show_int i = (if i < 0 then ''-'' @ show_nat (nat (- i)) else show_nat (nat i))"

fun joinCommas :: "string list \<Rightarrow> string" where
  "joinCommas [] = []"
| "joinCommas [m] = m"
| "joinCommas (m # ms) = m @ '','' @ joinCommas ms"

fun templateString :: "json \<Rightarrow> string" where
  "templateString JsUndefined = ''undefined''"
| "templateString JsNull = ''null''"
| "templateString (JsBool b) = (if b then ''true'' else ''false'')"
| "templateString (JsNum i) = show_int i"
| "templateString (JsString s) = s"
| "templateString (JsArray xs) =
     joinCommas (map (\<lambda>x. if x = JsUndefined \<or> x = JsNull then [] else templateString x) xs)"
| "templateString (JsObject kvs) = ''[object Object]''"
| "templateString (JsFile f) = ''[object File]''"

definition nullish :: "json \<Rightarrow> bool" where
  "nullish v = (v = JsUndefined \<or> v = JsNull)"

text \<open>
  Modelled from the spec: \<open>buildExecutionContext\<close> belongs to the graphql package and is
  not part of the sources. The definitions follow the operation selection of the
  package, whose messages the tests of \<open>parseGraphQLRequest\<close> fix: the package walks the
  definitions once; without an operation name it takes the only operation and reports
  a second one, with an operation name it takes the operation of that name, the last
  one if there are several, and never looks at whether an operation is anonymous;
  then it coerces the variable values of the operation it took.
\<close>

fun selectOperation ::
  "json \<Rightarrow> DocumentNode \<Rightarrow> OperationDefinitionNode option \<Rightarrow>
   string list + OperationDefinitionNode option" where
  "selectOperation opName [] found = Inr found"
| "selectOperation opName (OPERATION_DEFINITION definition # rest) found =
     (if nullish opName
      then (if found \<noteq> None
            then Inl [''Must provide operation name if query contains multiple operations.'']
            else selectOperation opName rest (Some definition))
      else if (case operationName definition of
                 None \<Rightarrow> False | Some n \<Rightarrow> opName = JsString n)
      then selectOperation opName rest (Some definition)
      else selectOperation opName rest found)"
| "selectOperation opName (definition # rest) found = selectOperation opName rest found"

definition buildExecutionContext ::
  "deps \<Rightarrow> DocumentNode \<Rightarrow> json \<Rightarrow> json \<Rightarrow>
   string list + OperationDefinitionNode \<times> json" where
  \<open>buildExecutionContext d doc opName rawVariableValues =
     (case selectOperation opName doc None of
        Inl errors \<Rightarrow> Inl errors
      | Inr None \<Rightarrow>
          Inl [if \<not> nullish opName
               then ''Unknown operation named "'' @ templateString opName @ ''".''
               else ''Must provide an operation.'']
      | Inr (Some opDef) \<Rightarrow>
          (case getVariableValues d opDef
                  (if nullish rawVariableValues then JsObject [] else rawVariableValues) of
             Inl errors \<Rightarrow> Inl errors
           | Inr coerced \<Rightarrow> Inr (opDef, coerced)))\<close>

text \<open>
  The \<open>parseDocumentNode\<close> of the \<open>parseGraphQLRequest\<close> module that returns the
  document: it resolves the operation with \<open>buildExecutionContext\<close> and throws the
  messages of the errors, one per line. It carries the suffix \<open>_exec\<close>.
\<close>

definition parseDocumentNode_exec ::
  "deps \<Rightarrow> DocumentNode \<Rightarrow> json \<Rightarrow> json \<Rightarrow> string + OperationTypeNode \<times> string option \<times> json" where
  "parseDocumentNode_exec d doc opName vars =
     (case buildExecutionContext d doc opName vars of
        Inl errorMessages \<Rightarrow> Inl (joinLines errorMessages)
      | Inr (opDef, coerced) \<Rightarrow> Inr (operation opDef, operationName opDef, coerced))"





section \<open>GraphQLHandler.predicate\<close>

datatype ExpectedOperationTypeNode = AllOperations | OPERATION OperationTypeNode

text \<open>
  An operation selector is a pattern or an exact name (a document given as selector is
  resolved to its operation name when the handler is constructed). A pattern is what
  its \<open>test\<close> answers on a string.
\<close>

datatype GraphQLHandlerNameSelector = Pattern "string \<Rightarrow> bool" | Exact string

datatype 'p GraphQLHandler =
  GraphQLHandler (infoOperationType: ExpectedOperationTypeNode)
    (infoOperationSelector: GraphQLHandlerNameSelector) (endpoint: 'p)

definition anonymousWarning :: "string \<Rightarrow> string \<Rightarrow> string" where
  \<open>anonymousWarning m publicUrl =
     ''Failed to intercept a GraphQL request at "'' @ m @ '' '' @ publicUrl @
     ''": anonymous GraphQL operations are not supported.''\<close>

text \<open>
  \<open>predicate\<close> returns its answer and the warnings it passed to \<open>devUtils.warn\<close>.
  \<open>matchRequestUrl\<close> is not in the sources: whether it reports a match is a parameter.
\<close>

definition predicate ::
  "(URL \<Rightarrow> 'p \<Rightarrow> bool) \<Rightarrow> deps \<Rightarrow> 'p GraphQLHandler \<Rightarrow> MockedRequest \<Rightarrow>
   ParsedGraphQLRequest option \<Rightarrow> bool \<times> string list" where
  "predicate matchRequestUrl d handler request parsedResult =
     (case parsedResult of
        None \<Rightarrow> (False, [])
      | Some parsed \<Rightarrow>
          (if \<not> truthyName (resolvedOperationName parsed) \<and> infoOperationType handler \<noteq> AllOperations
           then (False,
                 [anonymousWarning (requestMethod request) (getPublicUrlFromRequest d request)])
           else (let hasMatchingUrl = matchRequestUrl (requestUrl request) (endpoint handler);
                     hasMatchingOperationType =
                       (if infoOperationType handler = AllOperations then True
                        else OPERATION (operationType parsed) = infoOperationType handler);
                     hasMatchingOperationName =
                       (case infoOperationSelector handler of
                          Pattern test \<Rightarrow>
                            test (if truthyName (resolvedOperationName parsed)
                                  then printName (resolvedOperationName parsed) else [])
                        | Exact name \<Rightarrow> resolvedOperationName parsed = Some name)
                 in (hasMatchingUrl \<and> hasMatchingOperationType \<and> hasMatchingOperationName,
                     []))))"

text \<open>The four conditions of the claim, in its words.\<close>

definition selectorMatches :: "GraphQLHandlerNameSelector \<Rightarrow> string option \<Rightarrow> bool" where
  "selectorMatches selector name =
     (case selector of
        Pattern test \<Rightarrow> test (if truthyName name then printName name else [])
      | Exact s \<Rightarrow> name = Some s)"

definition claimedMatch ::
  "(URL \<Rightarrow> 'p \<Rightarrow> bool) \<Rightarrow> 'p GraphQLHandler \<Rightarrow> MockedRequest \<Rightarrow>
   ParsedGraphQLRequest option \<Rightarrow> bool" where
  "claimedMatch matchRequestUrl handler request parsedResult =
     (case parsedResult of
        None \<Rightarrow> False
      | Some parsed \<Rightarrow>
          matchRequestUrl (requestUrl request) (endpoint handler) \<and>
          (infoOperationType handler = AllOperations \<or>
           infoOperationType handler = OPERATION (operationType parsed)) \<and>
          selectorMatches (infoOperationSelector handler) (resolvedOperationName parsed))"

section \<open>Predicates of the claims\<close>

text \<open>
  \<open>spliced frags vars sels f\<close>: the field \<open>f\<close> is selected by \<open>sels\<close> once every inline
  fragment and every named fragment is spliced in whatever its type condition, and no
  directive on the way removes it.
\<close>

inductive spliced :: "fragments \<Rightarrow> variables \<Rightarrow> SelectionNode list \<Rightarrow> FieldNode \<Rightarrow> bool"
  for frags :: fragments and vars :: variables where
  spliced_field:
    "FIELD al n ds ss \<in> set sels \<Longrightarrow> shouldIncludeNode vars ds \<Longrightarrow>
     spliced frags vars sels (FieldNode al n ds ss)"
| spliced_inline:
    "INLINE_FRAGMENT tc ds sub \<in> set sels \<Longrightarrow> shouldIncludeNode vars ds \<Longrightarrow>
     spliced frags vars sub f \<Longrightarrow> spliced frags vars sels f"
| spliced_spread:
    "FRAGMENT_SPREAD n ds \<in> set sels \<Longrightarrow> shouldIncludeNode vars ds \<Longrightarrow>
     map_of frags n = Some fragment \<Longrightarrow>
     spliced frags vars (fragmentSelectionSet fragment) f \<Longrightarrow> spliced frags vars sels f"

text \<open>
  \<open>selected m frags vars sels f\<close>: the same, with only those inline fragments and
  named fragments spliced in whose type condition \<open>m\<close> accepts.
\<close>

inductive selected ::
  "(string option \<Rightarrow> bool) \<Rightarrow> fragments \<Rightarrow> variables \<Rightarrow> SelectionNode list \<Rightarrow> FieldNode \<Rightarrow> bool"
  for m :: "string option \<Rightarrow> bool" and frags :: fragments and vars :: variables where
  selected_field:
    "FIELD al n ds ss \<in> set sels \<Longrightarrow> shouldIncludeNode vars ds \<Longrightarrow>
     selected m frags vars sels (FieldNode al n ds ss)"
| selected_inline:
    "INLINE_FRAGMENT tc ds sub \<in> set sels \<Longrightarrow> shouldIncludeNode vars ds \<Longrightarrow> m tc \<Longrightarrow>
     selected m frags vars sub f \<Longrightarrow> selected m frags vars sels f"
| selected_spread:
    "FRAGMENT_SPREAD n ds \<in> set sels \<Longrightarrow> shouldIncludeNode vars ds \<Longrightarrow>
     map_of frags n = Some fragment \<Longrightarrow> m (Some (typeCondition fragment)) \<Longrightarrow>
     selected m frags vars (fragmentSelectionSet fragment) f \<Longrightarrow> selected m frags vars sels f"

text \<open>
  A type condition that the dummy schema does not resolve: none, or a name that is
  not the name of a specified type.
\<close>

definition unresolved :: "string option \<Rightarrow> bool" where
  "unresolved tc = (case tc of None \<Rightarrow> True | Some t \<Rightarrow> t \<notin> set specifiedTypeNames)"

fun covered ::
  "(string option \<Rightarrow> bool) \<Rightarrow> variables \<Rightarrow> string set \<Rightarrow> FieldNode set \<Rightarrow>
   SelectionNode list \<Rightarrow> bool" where
  "covered m vars V F [] = True"
| "covered m vars V F (FIELD al n ds ss # rest) =
     ((if shouldIncludeNode vars ds then FieldNode al n ds ss \<in> F else True) \<and>
      covered m vars V F rest)"
| "covered m vars V F (INLINE_FRAGMENT tc ds sub # rest) =
     ((if shouldIncludeNode vars ds \<and> m tc then covered m vars V F sub else True) \<and>
      covered m vars V F rest)"
| "covered m vars V F (FRAGMENT_SPREAD n ds # rest) =
     ((if shouldIncludeNode vars ds then n \<in> V else True) \<and> covered m vars V F rest)"

text \<open>
  Bookkeeping for the collection: \<open>covered\<close> says that the fields of a selection set are
  in \<open>F\<close> and its fragment names in \<open>V\<close>; \<open>closedUnder\<close> says so for the body of every
  fragment visited since \<open>V0\<close> whose type condition is accepted.
\<close>

definition closedUnder ::
  "(string option \<Rightarrow> bool) \<Rightarrow> fragments \<Rightarrow> variables \<Rightarrow> string set \<Rightarrow> string set \<Rightarrow>
   FieldNode set \<Rightarrow> bool" where
  "closedUnder m frags vars V0 V F =
     (\<forall>n fr. n \<in> V \<and> n \<notin> V0 \<and> map_of frags n = Some fr \<and> m (Some (typeCondition fr))
        \<longrightarrow> covered m vars V F (fragmentSelectionSet fr))"

text \<open>
  \<open>projects strict h r v\<close>: the projected value \<open>r\<close> is the payload value \<open>v\<close> cut down.
  A copied value is \<open>v\<close> itself, a projected array has an element for each element of
  the payload array, and each key of a projected object is an own property of the
  payload object, projected in turn; a key that the payload object does not own is
  refused when \<open>strict\<close> and otherwise must be bound to what a read of that key on
  the payload object gives, the inherited value or undefined.
\<close>

fun projects :: "bool \<Rightarrow> heap \<Rightarrow> rval \<Rightarrow> jsval \<Rightarrow> bool"
  and projectsFields :: "bool \<Rightarrow> heap \<Rightarrow> (string \<times> rval) list \<Rightarrow> nat \<Rightarrow> bool"
  and projectsItems :: "bool \<Rightarrow> heap \<Rightarrow> rval list \<Rightarrow> jsval list \<Rightarrow> bool"
where
  "projects strict h (RVal x) v = (x = v)"
| "projects strict h (RObj kvs) v =
     (case v of JRef a \<Rightarrow> projectsFields strict h kvs a | _ \<Rightarrow> False)"
| "projects strict h (RArr rs) v =
     (case array_items h v of Some xs \<Rightarrow> projectsItems strict h rs xs | None \<Rightarrow> False)"
| "projectsFields strict h [] a = True"
| "projectsFields strict h (kv # kvs) a =
     ((if hasOwnProperty h a (fst kv) then projects strict h (snd kv) (get_prop h a (fst kv))
       else if strict then False else snd kv = RVal (get_prop h a (fst kv))) \<and>
      projectsFields strict h kvs a)"
| "projectsItems strict h [] xs = (xs = [])"
| "projectsItems strict h (r # rs) xs =
     (case xs of [] \<Rightarrow> False | x # xs' \<Rightarrow> projects strict h r x \<and> projectsItems strict h rs xs')"

text \<open>
  \<open>accessible h root data p v\<close>: \<open>p\<close> is the dotted and indexed access path of \<open>v\<close> from
  the object \<open>data\<close>, whose own path is \<open>root\<close>.
\<close>

inductive accessible :: "heap \<Rightarrow> string \<Rightarrow> nat \<Rightarrow> string \<Rightarrow> jsval \<Rightarrow> bool"
  for h :: heap and root :: string and data :: nat where
  accessible_root: "accessible h root data root (JRef data)"
| accessible_property:
    "accessible h root data p (JRef a) \<Longrightarrow>
     accessible h root data (p @ ''.'' @ k) (get_prop h a k)"
| accessible_item:
    "accessible h root data p v \<Longrightarrow> array_items h v = Some xs \<Longrightarrow> i < length xs \<Longrightarrow>
     accessible h root data (p @ ''['' @ show_nat i @ '']'') (xs ! i)"

definition inferenceFailure ::
  "heap \<Rightarrow> GraphQLSchema option \<Rightarrow> string \<Rightarrow> nat \<Rightarrow> error \<Rightarrow> bool" where
  "inferenceFailure h schema root data e =
     (\<exists>p b. e = UnableToInferObjectType p \<and> accessible h root data p (JRef b) \<and>
            runtimeObjectOf h schema b = None \<and> schema \<noteq> None)"



text \<open>
  The static depth of a selection set with its fragments spliced in: the number of
  selection sets nested in one another, type conditions and directives ignored. The
  first argument bounds how deep fragment spreads may nest inside fragment bodies;
  \<open>None\<close> means that the bound was reached, as it is for every bound when fragments
  spread one another in a cycle.
\<close>

fun itemDepth :: "nat \<Rightarrow> fragments \<Rightarrow> SelectionNode \<Rightarrow> nat option"
  and itemsDepth :: "nat \<Rightarrow> fragments \<Rightarrow> SelectionNode list \<Rightarrow> nat option"
where
  "itemDepth k frags (FIELD al n ds None) = Some 0"
| "itemDepth k frags (FIELD al n ds (Some sels)) = map_option Suc (itemsDepth k frags sels)"
| "itemDepth k frags (INLINE_FRAGMENT tc ds sels) = itemsDepth k frags sels"
| "itemDepth 0 frags (FRAGMENT_SPREAD n ds) = None"
| "itemDepth (Suc k) frags (FRAGMENT_SPREAD n ds) =
     (case map_of frags n of
        None \<Rightarrow> Some 0
      | Some fragment \<Rightarrow> itemsDepth k frags (fragmentSelectionSet fragment))"
| "itemsDepth k frags [] = Some 0"
| "itemsDepth k frags (s # rest) =
     (case itemDepth k frags s of
        None \<Rightarrow> None
      | Some d \<Rightarrow>
          (case itemsDepth k frags rest of None \<Rightarrow> None | Some d' \<Rightarrow> Some (max d d')))"

definition staticDepth :: "nat \<Rightarrow> fragments \<Rightarrow> SelectionNode list \<Rightarrow> nat option" where
  "staticDepth k frags sels = map_option Suc (itemsDepth k frags sels)"

definition operationDepth :: "nat \<Rightarrow> DocumentNode \<Rightarrow> string option \<Rightarrow> nat option" where
  "operationDepth k documentNode opName =
     (case extractDefinitions documentNode of
        (fragments, operations) \<Rightarrow>
          (case map_of operations (operationKey opName) of
             None \<Rightarrow> Some 0
           | Some opDef \<Rightarrow> staticDepth k fragments (operationSelectionSet opDef)))"

definition nodeDepth :: "nat \<Rightarrow> fragments \<Rightarrow> FieldNode \<Rightarrow> nat option" where
  "nodeDepth k frags f =
     itemDepth k frags (FIELD (fieldAlias f) (fieldName f) (fieldDirectives f) (selectionSet f))"


section \<open>Projection over a store with allocation\<close>

text \<open>
  The same four functions with the objects they create made explicit. A store is the
  heap together with the next free address: \<open>{}\<close> and the array that \<open>map\<close> returns
  are allocated at that address, and \<open>pickedData[name] = value\<close> is an update of the
  object at the address of \<open>pickedData\<close>. The result is the returned value, an
  address for an object or array, or the error thrown, with the store as the call
  leaves it.
\<close>

record store =
  cells :: heap
  nextRef :: nat

definition alloc :: "store \<Rightarrow> hobj \<Rightarrow> nat \<times> store" where
  "alloc s ob = (nextRef s, s\<lparr>cells := (cells s)(nextRef s \<mapsto> ob), nextRef := Suc (nextRef s)\<rparr>)"

definition setProperty :: "store \<Rightarrow> nat \<Rightarrow> string \<Rightarrow> jsval \<Rightarrow> store" where
  "setProperty s p k v =
     (case cells s p of
        Some (HObj kvs) \<Rightarrow> s\<lparr>cells := (cells s)(p \<mapsto> HObj (AList.update k v kvs))\<rparr>
      | _ \<Rightarrow> s)"

text \<open>
  \<open>pickField\<close>, \<open>pickSelectionSet\<close>, the loop over the collected field nodes with
  the address of \<open>pickedData\<close> as its last argument, and the \<open>map\<close> over the items
  of an array.
\<close>

function pickField_store ::
    "nat \<Rightarrow> store \<Rightarrow> GraphQLSchema option \<Rightarrow> fragments \<Rightarrow> variables \<Rightarrow>
     string \<Rightarrow> FieldNode \<Rightarrow> jsval \<Rightarrow> ((error + jsval) \<times> store) option"
  and pickSelectionSet_store ::
    "nat \<Rightarrow> store \<Rightarrow> GraphQLSchema option \<Rightarrow> fragments \<Rightarrow> variables \<Rightarrow>
     string \<Rightarrow> nat \<Rightarrow> SelectionNode list \<Rightarrow> string option \<Rightarrow>
     ((error + jsval) \<times> store) option"
  and pickNodes_store ::
    "nat \<Rightarrow> store \<Rightarrow> GraphQLSchema option \<Rightarrow> fragments \<Rightarrow> variables \<Rightarrow>
     string \<Rightarrow> nat \<Rightarrow> FieldNode list \<Rightarrow> nat \<Rightarrow> ((error + jsval) \<times> store) option"
  and pickItems_store ::
    "nat \<Rightarrow> store \<Rightarrow> GraphQLSchema option \<Rightarrow> fragments \<Rightarrow> variables \<Rightarrow>
     string \<Rightarrow> FieldNode \<Rightarrow> jsval list \<Rightarrow> nat \<Rightarrow> ((error + jsval list) \<times> store) option"
where
  "pickField_store n s schema frags vars fieldPath fieldNode fieldData =
     (case selectionSet fieldNode of
        None \<Rightarrow> Some (Inr fieldData, s)
      | Some sels \<Rightarrow>
          (case fieldData of
             JRef a \<Rightarrow>
               (let runtimeObject = runtimeObjectOf (cells s) schema a
                in if schema \<noteq> None \<and> runtimeObject = None
                   then Some (Inl (UnableToInferObjectType fieldPath), s)
                   else pickSelectionSet_store n s schema frags vars fieldPath a sels
                          runtimeObject)
           | _ \<Rightarrow> Some (Inr fieldData, s)))"
| "pickSelectionSet_store 0 s schema frags vars path a sels runtimeObject = None"
| "pickSelectionSet_store (Suc n) s schema frags vars path a sels runtimeObject =
     pickNodes_store n (snd (alloc s (HObj []))) schema frags vars path a
       (fieldNodes (collectFields schema frags vars runtimeObject sels))
       (fst (alloc s (HObj [])))"
| "pickNodes_store n s schema frags vars path a [] pickedData =
     Some (Inr (JRef pickedData), s)"
| "pickNodes_store n s schema frags vars path a (fieldNode # rest) pickedData =
     (let fieldData = get_prop (cells s) a (fieldName fieldNode);
          picked =
            (case array_items (cells s) fieldData of
               Some items \<Rightarrow>
                 (case pickItems_store n s schema frags vars
                         (path @ ''.'' @ fieldName fieldNode) fieldNode items 0 of
                    None \<Rightarrow> None
                  | Some (Inl e, s1) \<Rightarrow> Some (Inl e, s1)
                  | Some (Inr vs, s1) \<Rightarrow>
                      Some (Inr (JRef (fst (alloc s1 (HArr vs)))), snd (alloc s1 (HArr vs))))
             | None \<Rightarrow>
                 pickField_store n s schema frags vars
                   (path @ ''.'' @ fieldName fieldNode) fieldNode fieldData)
      in case picked of
           None \<Rightarrow> None
         | Some (Inl e, s1) \<Rightarrow> Some (Inl e, s1)
         | Some (Inr v, s1) \<Rightarrow>
             pickNodes_store n (setProperty s1 pickedData (fieldName fieldNode) v)
               schema frags vars path a rest pickedData)"
| "pickItems_store n s schema frags vars prefix fieldNode [] i = Some (Inr [], s)"
| "pickItems_store n s schema frags vars prefix fieldNode (x # xs) i =
     (case pickField_store n s schema frags vars
             (prefix @ ''['' @ show_nat i @ '']'') fieldNode x of
        None \<Rightarrow> None
      | Some (Inl e, s1) \<Rightarrow> Some (Inl e, s1)
      | Some (Inr v, s1) \<Rightarrow>
          (case pickItems_store n s1 schema frags vars prefix fieldNode xs (Suc i) of
             None \<Rightarrow> None
           | Some (Inl e, s2) \<Rightarrow> Some (Inl e, s2)
           | Some (Inr vs, s2) \<Rightarrow> Some (Inr (v # vs), s2)))"
  by pat_completeness auto
termination
  by (relation "inv_image (less_than <*lex*> less_than <*lex*> less_than)
        (\<lambda>x. case x of
           Inl (Inl (n, s, schema, frags, vars, p, f, d)) \<Rightarrow> (n, 1::nat, 0::nat)
         | Inl (Inr (n, s, schema, frags, vars, p, a, sels, rt)) \<Rightarrow> (n, 0, 0)
         | Inr (Inl (n, s, schema, frags, vars, p, a, fns, acc)) \<Rightarrow> (n, 3, length fns)
         | Inr (Inr (n, s, schema, frags, vars, p, f, items, i)) \<Rightarrow> (n, 2, length items))")
     auto

definition pickOperationFields_store ::
  "nat \<Rightarrow> store \<Rightarrow> nat \<Rightarrow> DocumentNode \<Rightarrow> string option \<Rightarrow> variables option \<Rightarrow>
   GraphQLSchema option \<Rightarrow> ((error + jsval) \<times> store) option" where
  "pickOperationFields_store fuel s data documentNode opName vars schema =
     (case extractDefinitions documentNode of
        (fragments, operations) \<Rightarrow>
          (case map_of operations (operationKey opName) of
             None \<Rightarrow>
               Some (Inl (if inheritedKey (operationKey opName) then TypeError
                          else (case opName of
                                  None \<Rightarrow> UnableToFindAnonymousQuery
                                | Some n \<Rightarrow> (if n = [] then UnableToFindAnonymousQuery
                                            else UnableToFindOperation n))), s)
           | Some opDef \<Rightarrow>
               pickSelectionSet_store fuel s schema fragments
                 (case vars of None \<Rightarrow> [] | Some vs \<Rightarrow> vs)
                 ''data'' data (operationSelectionSet opDef)
                 (getRootType schema (operation opDef))))"

text \<open>
  A payload store is closed below \<open>b\<close> when all its objects live below \<open>b\<close> and
  refer only to addresses below \<open>b\<close>.
\<close>

fun refsOf :: "hobj \<Rightarrow> jsval list" where
  "refsOf (HObj kvs) = map snd kvs"
| "refsOf (HArr xs) = xs"

definition validValue :: "nat \<Rightarrow> jsval \<Rightarrow> bool" where
  "validValue b v = (case v of JRef p \<Rightarrow> p < b | _ \<Rightarrow> True)"

definition closedBelow :: "heap \<Rightarrow> nat \<Rightarrow> bool" where
  "closedBelow h b =
     (\<forall>a ob. h a = Some ob \<longrightarrow> a < b \<and> list_all (validValue b) (refsOf ob))"

text \<open>
  \<open>reads h b lo hi v r\<close>: read in the heap \<open>h\<close>, the value \<open>v\<close> is the projected
  value \<open>r\<close>: the objects and arrays of \<open>r\<close> are objects of \<open>h\<close> at addresses from
  \<open>lo\<close> up to \<open>hi\<close>, with the same keys in the same order, and its copied values are
  values of the payload below \<open>b\<close>.
\<close>

fun reads :: "heap \<Rightarrow> nat \<Rightarrow> nat \<Rightarrow> nat \<Rightarrow> jsval \<Rightarrow> rval \<Rightarrow> bool"
  and readsFields ::
    "heap \<Rightarrow> nat \<Rightarrow> nat \<Rightarrow> nat \<Rightarrow> (string \<times> jsval) list \<Rightarrow> (string \<times> rval) list \<Rightarrow> bool"
  and readsItems :: "heap \<Rightarrow> nat \<Rightarrow> nat \<Rightarrow> nat \<Rightarrow> jsval list \<Rightarrow> rval list \<Rightarrow> bool"
where
  "reads h b lo hi v (RVal x) = (v = x \<and> validValue b x)"
| "reads h b lo hi v (RObj krs) =
     (case v of
        JRef p \<Rightarrow>
          lo \<le> p \<and> p < hi \<and>
          (case h p of Some (HObj kvs) \<Rightarrow> readsFields h b lo hi kvs krs | _ \<Rightarrow> False)
      | _ \<Rightarrow> False)"
| "reads h b lo hi v (RArr rs) =
     (case v of
        JRef p \<Rightarrow>
          lo \<le> p \<and> p < hi \<and>
          (case h p of Some (HArr vs) \<Rightarrow> readsItems h b lo hi vs rs | _ \<Rightarrow> False)
      | _ \<Rightarrow> False)"
| "readsFields h b lo hi kvs [] = (kvs = [])"
| "readsFields h b lo hi kvs (kr # krs) =
     (case kvs of
        [] \<Rightarrow> False
      | kv # rest \<Rightarrow>
          fst kv = fst kr \<and> reads h b lo hi (snd kv) (snd kr) \<and> readsFields h b lo hi rest krs)"
| "readsItems h b lo hi vs [] = (vs = [])"
| "readsItems h b lo hi vs (r # rs) =
     (case vs of
        [] \<Rightarrow> False
      | v # rest \<Rightarrow> reads h b lo hi v r \<and> readsItems h b lo hi rest rs)"

text \<open>
  \<open>frame s s'\<close>: every address allocated in \<open>s\<close> holds in \<open>s'\<close> what it held in
  \<open>s\<close>; \<open>frameExcept p\<close> leaves the address \<open>p\<close> out.
\<close>

definition frame :: "store \<Rightarrow> store \<Rightarrow> bool" where
  "frame s s' = (nextRef s \<le> nextRef s' \<and> (\<forall>a<nextRef s. cells s' a = cells s a))"

definition frameExcept :: "nat \<Rightarrow> store \<Rightarrow> store \<Rightarrow> bool" where
  "frameExcept p s s' =
     (nextRef s \<le> nextRef s' \<and> (\<forall>a<nextRef s. a \<noteq> p \<longrightarrow> cells s' a = cells s a))"

text \<open>
  \<open>agrees b s h0\<close>: below \<open>b\<close> the store \<open>s\<close> is the payload heap \<open>h0\<close>.
  \<open>simulates\<close> relates an outcome over the store to an outcome of the projection
  over the payload heap: both run out of fuel, both throw the same error, or the
  value returned over the store reads as the projected value.
\<close>

definition agrees :: "nat \<Rightarrow> store \<Rightarrow> heap \<Rightarrow> bool" where
  "agrees b s h0 = (b \<le> nextRef s \<and> (\<forall>a<b. cells s a = h0 a))"

definition simulates ::
  "nat \<Rightarrow> nat \<Rightarrow> ((error + jsval) \<times> store) option \<Rightarrow> (error + rval) option \<Rightarrow> bool" where
  "simulates b lo S V =
     (case S of
        None \<Rightarrow> V = None
      | Some (x, s') \<Rightarrow>
          (case x of
             Inl e \<Rightarrow> V = Some (Inl e)
           | Inr v \<Rightarrow>
               (case V of
                  Some (Inr r) \<Rightarrow> reads (cells s') b lo (nextRef s') v r
                | _ \<Rightarrow> False)))"

definition simulatesItems ::
  "nat \<Rightarrow> nat \<Rightarrow> ((error + jsval list) \<times> store) option \<Rightarrow> (error + rval list) option \<Rightarrow> bool"
  where
  "simulatesItems b lo S V =
     (case S of
        None \<Rightarrow> V = None
      | Some (x, s') \<Rightarrow>
          (case x of
             Inl e \<Rightarrow> V = Some (Inl e)
           | Inr vs \<Rightarrow>
               (case V of
                  Some (Inr rs) \<Rightarrow> readsItems (cells s') b lo (nextRef s') vs rs
                | _ \<Rightarrow> False)))"
section \<open>Example documents and payloads\<close>

definition leaf :: "string \<Rightarrow> SelectionNode" where
  "leaf n = FIELD None n [] None"

definition duplicateDoc :: DocumentNode where
  "duplicateDoc =
     [OPERATION_DEFINITION
        \<lparr>operation = QUERY, operationName = Some ''Q'', operationSelectionSet = [leaf ''a'']\<rparr>,
      OPERATION_DEFINITION
        \<lparr>operation = QUERY, operationName = None, operationSelectionSet = [leaf ''a'']\<rparr>,
      OPERATION_DEFINITION
        \<lparr>operation = QUERY, operationName = Some ''Q'', operationSelectionSet = [leaf ''b'']\<rparr>,
      OPERATION_DEFINITION
        \<lparr>operation = QUERY, operationName = None, operationSelectionSet = [leaf ''c'']\<rparr>]"

definition abcHeap :: heap where
  "abcHeap = [0 \<mapsto> HObj [(''a'', JNum 1), (''b'', JNum 2), (''c'', JNum 3)]]"

definition exampleDeps :: deps where
  \<open>exampleDeps =
     \<lparr>parse = (\<lambda>q. Inl ''Syntax Error: Expected "$", found ")".''),
      getVariableValues = (\<lambda>opDef v. Inr v),
      jsonParse = (\<lambda>t. JsUndefined),
      getPublicUrlFromRequest = (\<lambda>r. href (requestUrl r)),
      extractMultipartVariables = (\<lambda>v m fs. Inr v)\<rparr>\<close>

definition graphqlUrl :: URL where
  "graphqlUrl = \<lparr>href = ''http://localhost:8080/graphql'', searchParams = []\<rparr>"

definition anonymousQueryRequest :: MockedRequest where
  "anonymousQueryRequest =
     \<lparr>requestMethod = ''POST'', requestUrl = graphqlUrl,
      requestBody = JsObject [(''query'', JsString ''query { user { id } }'')]\<rparr>"

definition anonymousQueryParsed :: ParsedGraphQLRequest where
  "anonymousQueryParsed =
     ParsedGraphQLRequest
       [OPERATION_DEFINITION \<lparr>operation = QUERY, operationName = None,
          operationSelectionSet = [FIELD None ''user'' [] (Some [FIELD None ''id'' [] None])]\<rparr>]
       QUERY None (JsObject [])"

definition nameDoc :: DocumentNode where
  "nameDoc =
     [OPERATION_DEFINITION
        \<lparr>operation = QUERY, operationName = None,
         operationSelectionSet = [FIELD None ''a'' [] None, FIELD None ''name'' [] None]\<rparr>]"

definition accountSchema :: GraphQLSchema where
  "accountSchema =
     \<lparr>typeNames = ''Account'' # ''Business'' # specifiedTypeNames, rootTypes = []\<rparr>"

definition businessHeap :: heap where
  "businessHeap =
     [0 \<mapsto> HObj [(''user'', JNull), (''business'', JRef 1)],
      1 \<mapsto> HObj [(''__typename'', JStr ''Business''), (''id'', JStr ''0987654321''),
                 (''employees'', JRef 2)],
      2 \<mapsto> HArr [JRef 3, JRef 4],
      3 \<mapsto> HObj [(''__typename'', JStr ''Account''), (''id'', JStr ''123456789''),
                 (''employer'', JNull)],
      4 \<mapsto> HObj [(''__typename'', JStr ''Account''), (''id'', JStr ''123456789''),
                 (''employer'', JRef 5)],
      5 \<mapsto> HObj [(''id'', JStr ''0987654321'')]]"

definition businessDoc :: DocumentNode where
  "businessDoc =
     [OPERATION_DEFINITION
        \<lparr>operation = QUERY, operationName = None,
         operationSelectionSet =
           [FIELD None ''user'' []
              (Some [FIELD None ''id'' [] None,
                     FIELD None ''employer'' [] (Some [FIELD None ''id'' [] None])]),
            FIELD None ''business'' []
              (Some [FIELD None ''id'' [] None,
                     FIELD None ''employees'' []
                       (Some [FIELD None ''id'' [] None,
                              FIELD None ''employer'' []
                                (Some [FIELD None ''id'' [] None])])])]\<rparr>]"

definition relationshipFragments :: fragments where
  "relationshipFragments =
     [(''UserFields'',
       \<lparr>fragmentName = ''UserFields'', typeCondition = ''Account'',
        fragmentSelectionSet = [FIELD None ''id'' [] None, FIELD None ''name'' [] None]\<rparr>)]"

definition relationshipSelection :: "SelectionNode list" where
  "relationshipSelection =
     [FRAGMENT_SPREAD ''UserFields'' [],
      INLINE_FRAGMENT (Some ''Business'') []
        [FIELD None ''id'' [] None, FIELD None ''type'' [] None]]"

definition relationshipHeap :: heap where
  "relationshipHeap =
     [0 \<mapsto> HObj [(''__typename'', JStr ''Business''), (''id'', JStr ''0864297531''),
                 (''type'', JStr ''SME'')],
      1 \<mapsto> HObj [(''id'', JStr ''1357902468''), (''type'', JStr ''unknown''),
                 (''name'', JNull)]]"



definition jackJillHeap :: heap where
  "jackJillHeap =
     [0 \<mapsto> HObj [(''user'', JRef 1)],
      1 \<mapsto> HObj [(''__typename'', JStr ''User''), (''id'', JStr ''1234567890''),
                 (''name'', JStr ''Jack''), (''siblings'', JRef 3),
                 (''eldestSibling'', JRef 2), (''age'', JNum 11)],
      2 \<mapsto> HObj [(''__typename'', JStr ''User''), (''id'', JStr ''0987654321''),
                 (''name'', JStr ''Jill''), (''siblings'', JRef 4),
                 (''eldestSibling'', JRef 1), (''age'', JNum 10)],
      3 \<mapsto> HArr [JRef 2],
      4 \<mapsto> HArr [JRef 1]]"

definition jackJillQuery :: DocumentNode where
  "jackJillQuery =
     [OPERATION_DEFINITION
        \<lparr>operation = QUERY, operationName = None,
         operationSelectionSet =
           [FIELD None ''user'' []
              (Some [FIELD None ''name'' [] None,
                     FIELD None ''siblings'' [] (Some [FIELD None ''name'' [] None]),
                     FIELD None ''eldestSibling'' [] (Some [FIELD None ''age'' [] None])])]\<rparr>]"

definition siblingsFragment :: FragmentDefinitionNode where
  "siblingsFragment =
     \<lparr>fragmentName = ''Siblings'', typeCondition = ''User'',
      fragmentSelectionSet =
        [FIELD None ''name'' [] None,
         FIELD None ''siblings'' [] (Some [FRAGMENT_SPREAD ''Siblings'' []])]\<rparr>"

definition recursiveQuery :: DocumentNode where
  "recursiveQuery =
     [OPERATION_DEFINITION
        \<lparr>operation = QUERY, operationName = None,
         operationSelectionSet =
           [FIELD None ''user'' [] (Some [FRAGMENT_SPREAD ''Siblings'' []])]\<rparr>,
      FRAGMENT_DEFINITION siblingsFragment]"

definition jackJillStore :: store where
  "jackJillStore = \<lparr>cells = jackJillHeap, nextRef = 5\<rparr>"

definition duplicateFragmentDoc :: DocumentNode where
  "duplicateFragmentDoc =
     [FRAGMENT_DEFINITION
        \<lparr>fragmentName = ''F'', typeCondition = ''T'', fragmentSelectionSet = [leaf ''a'']\<rparr>,
      OPERATION_DEFINITION
        \<lparr>operation = QUERY, operationName = Some ''Q'', operationSelectionSet = [leaf ''a'']\<rparr>,
      OPERATION_DEFINITION
        \<lparr>operation = QUERY, operationName = Some ''Q'',
         operationSelectionSet = [FRAGMENT_SPREAD ''F'' []]\<rparr>,
      FRAGMENT_DEFINITION
        \<lparr>fragmentName = ''F'', typeCondition = ''T'', fragmentSelectionSet = [leaf ''b'']\<rparr>]"













declare pickField.simps [simp del]

declare pickField_plain.simps [simp del]

section \<open>Operation and fragment tables\<close>

lemma find_app:
  "find P (xs @ ys) = (case find P xs of Some x \<Rightarrow> Some x | None \<Rightarrow> find P ys)"
  by (induction xs) auto

lemma map_of_fold_update:
  "map_of (fold (\<lambda>d al. AList.update (key d) d al) ds acc) k =
     (case find (\<lambda>d. key d = k) (rev ds) of
        Some d \<Rightarrow> Some d
      | None \<Rightarrow> map_of acc k)"
proof (induction ds arbitrary: acc)
  case Nil
  then show ?case by simp
next
  case (Cons d ds)
  show ?case
    by (simp add: Cons.IH update_conv' find_app split: option.splits)
qed

lemma operationDefinitions_append:
  "operationDefinitions (xs @ ys) = operationDefinitions xs @ operationDefinitions ys"
  by (induction xs rule: operationDefinitions.induct) auto

lemma fragmentDefinitions_append:
  "fragmentDefinitions (xs @ ys) = fragmentDefinitions xs @ fragmentDefinitions ys"
  by (induction xs rule: fragmentDefinitions.induct) auto

lemma set_operationDefinitions:
  "set (operationDefinitions ds) = {d. OPERATION_DEFINITION d \<in> set ds}"
  by (induction ds rule: operationDefinitions.induct) auto

lemma set_fragmentDefinitions:
  "set (fragmentDefinitions ds) = {f. FRAGMENT_DEFINITION f \<in> set ds}"
  by (induction ds rule: fragmentDefinitions.induct) auto

section \<open>Operation and fragment tables: the last definition stays\<close>

lemma last_operation:
  assumes "doc = pre @ OPERATION_DEFINITION d # post"
    and "\<forall>x. OPERATION_DEFINITION x \<in> set post \<longrightarrow>
           operationKey (operationName x) \<noteq> operationKey (operationName d)"
  shows "map_of (snd (extractDefinitions doc)) (operationKey (operationName d)) = Some d"
proof -
  have "find (\<lambda>x. operationKey (operationName x) = operationKey (operationName d))
          (rev (operationDefinitions post)) = None"
    using assms(2) by (simp add: find_None_iff set_operationDefinitions)
  then show ?thesis
    by (simp add: assms(1) extractDefinitions_def map_of_fold_update
        operationDefinitions_append find_app update_conv')
qed

lemma last_fragment:
  assumes "doc = pre @ FRAGMENT_DEFINITION f # post"
    and "\<forall>x. FRAGMENT_DEFINITION x \<in> set post \<longrightarrow> fragmentName x \<noteq> fragmentName f"
  shows "map_of (fst (extractDefinitions doc)) (fragmentName f) = Some f"
proof -
  have "find (\<lambda>x. fragmentName x = fragmentName f) (rev (fragmentDefinitions post)) = None"
    using assms(2) by (simp add: find_None_iff set_fragmentDefinitions)
  then show ?thesis
    by (simp add: assms(1) extractDefinitions_def map_of_fold_update
        fragmentDefinitions_append find_app update_conv')
qed

text \<open>
  C10. Extraction raises no error on duplicate keys: the operation table maps a key to
  the operation definition that occurs last in the document under that key (every
  anonymous operation has the reserved key), the fragment table maps a name to the last
  fragment definition of that name, and projection runs on the selection set of the
  last operation definition under the requested key, with that fragment table. The
  same again on the document itself: an operation definition that no later operation
  definition of the document shares its key with is the entry of its key and the one
  projection uses, and a fragment definition that no later fragment definition shares
  its name with is the entry of its name.
\<close>

theorem C10_last_definition_wins:
  "map_of (snd (extractDefinitions doc)) k =
     find (\<lambda>d. operationKey (operationName d) = k) (rev (operationDefinitions doc))
   \<and> map_of (fst (extractDefinitions doc)) n =
     find (\<lambda>f. fragmentName f = n) (rev (fragmentDefinitions doc))
   \<and> (find (\<lambda>d. operationKey (operationName d) = operationKey opName)
              (rev (operationDefinitions doc)) = Some d \<longrightarrow>
          pickOperationFields fuel h data doc opName vars schema =
            pickSelectionSet fuel h schema (fst (extractDefinitions doc))
              (case vars of None \<Rightarrow> [] | Some vs \<Rightarrow> vs) ''data'' data
              (operationSelectionSet d) (getRootType schema (operation d)))
   \<and> (doc = pre @ OPERATION_DEFINITION d' # post \<and>
       (\<forall>x. OPERATION_DEFINITION x \<in> set post \<longrightarrow>
             operationKey (operationName x) \<noteq> operationKey (operationName d')) \<longrightarrow>
          map_of (snd (extractDefinitions doc)) (operationKey (operationName d')) = Some d' \<and>
          (operationKey opName = operationKey (operationName d') \<longrightarrow>
             pickOperationFields fuel h data doc opName vars schema =
               pickSelectionSet fuel h schema (fst (extractDefinitions doc))
                 (case vars of None \<Rightarrow> [] | Some vs \<Rightarrow> vs) ''data'' data
                 (operationSelectionSet d') (getRootType schema (operation d'))))
   \<and> (doc = pre' @ FRAGMENT_DEFINITION f # post' \<and>
       (\<forall>x. FRAGMENT_DEFINITION x \<in> set post' \<longrightarrow> fragmentName x \<noteq> fragmentName f) \<longrightarrow>
          map_of (fst (extractDefinitions doc)) (fragmentName f) = Some f)"
proof (intro conjI impI)
  show "map_of (snd (extractDefinitions doc)) k =
     find (\<lambda>d. operationKey (operationName d) = k) (rev (operationDefinitions doc))"
    by (simp add: extractDefinitions_def map_of_fold_update split: option.splits)
  show "map_of (fst (extractDefinitions doc)) n =
     find (\<lambda>f. fragmentName f = n) (rev (fragmentDefinitions doc))"
    by (simp add: extractDefinitions_def map_of_fold_update split: option.splits)
next
  assume "find (\<lambda>d. operationKey (operationName d) = operationKey opName)
              (rev (operationDefinitions doc)) = Some d"
  then show "pickOperationFields fuel h data doc opName vars schema =
            pickSelectionSet fuel h schema (fst (extractDefinitions doc))
              (case vars of None \<Rightarrow> [] | Some vs \<Rightarrow> vs) ''data'' data
              (operationSelectionSet d) (getRootType schema (operation d))"
    by (simp add: extractDefinitions_def pickOperationFields_def map_of_fold_update
        split: option.splits)
next
  assume a: "doc = pre @ OPERATION_DEFINITION d' # post \<and>
       (\<forall>x. OPERATION_DEFINITION x \<in> set post \<longrightarrow>
             operationKey (operationName x) \<noteq> operationKey (operationName d'))"
  then show m: "map_of (snd (extractDefinitions doc)) (operationKey (operationName d')) = Some d'"
    by (intro last_operation [of doc pre d' post]) auto
  assume "operationKey opName = operationKey (operationName d')"
  with m show "pickOperationFields fuel h data doc opName vars schema =
               pickSelectionSet fuel h schema (fst (extractDefinitions doc))
                 (case vars of None \<Rightarrow> [] | Some vs \<Rightarrow> vs) ''data'' data
                 (operationSelectionSet d') (getRootType schema (operation d'))"
    by (auto simp: pickOperationFields_def split: prod.splits)
next
  assume "doc = pre' @ FRAGMENT_DEFINITION f # post' \<and>
       (\<forall>x. FRAGMENT_DEFINITION x \<in> set post' \<longrightarrow> fragmentName x \<noteq> fragmentName f)"
  then show "map_of (fst (extractDefinitions doc)) (fragmentName f) = Some f"
    by (intro last_fragment [of doc pre' f post']) auto
qed

theorem C10_last_definition_wins_witness:
  "pickOperationFields 1 abcHeap 0 duplicateDoc (Some ''Q'') None None =
     Some (Inr (RObj [(''b'', RVal (JNum 2))]))
   \<and> pickOperationFields 1 abcHeap 0 duplicateDoc None None None =
     Some (Inr (RObj [(''c'', RVal (JNum 3))]))
   \<and> map_of (fst (extractDefinitions duplicateFragmentDoc)) ''F'' =
     Some \<lparr>fragmentName = ''F'', typeCondition = ''T'', fragmentSelectionSet = [leaf ''b'']\<rparr>
   \<and> map_of (snd (extractDefinitions duplicateFragmentDoc)) ''Q'' =
     Some \<lparr>operation = QUERY, operationName = Some ''Q'',
           operationSelectionSet = [FRAGMENT_SPREAD ''F'' []]\<rparr>
   \<and> pickOperationFields 1 abcHeap 0 duplicateFragmentDoc (Some ''Q'') None None =
     Some (Inr (RObj [(''b'', RVal (JNum 2))]))"
proof -
  let ?F1 = "\<lparr>fragmentName = ''F'', typeCondition = ''T'', fragmentSelectionSet = [leaf ''a'']\<rparr>"
  let ?F2 = "\<lparr>fragmentName = ''F'', typeCondition = ''T'', fragmentSelectionSet = [leaf ''b'']\<rparr>"
  let ?Q1 = "\<lparr>operation = QUERY, operationName = Some ''Q'', operationSelectionSet = [leaf ''a'']\<rparr>"
  let ?Q2 = "\<lparr>operation = QUERY, operationName = Some ''Q'',
              operationSelectionSet = [FRAGMENT_SPREAD ''F'' []]\<rparr>"
  have t: "map_of (fst (extractDefinitions duplicateFragmentDoc)) ''F'' = Some ?F2"
    "map_of (snd (extractDefinitions duplicateFragmentDoc)) ''Q'' = Some ?Q2"
    "pickOperationFields 1 abcHeap 0 duplicateFragmentDoc (Some ''Q'') None None =
       pickSelectionSet 1 abcHeap None (fst (extractDefinitions duplicateFragmentDoc)) []
         ''data'' 0 [FRAGMENT_SPREAD ''F'' []] (getRootType None QUERY)"
    using C10_last_definition_wins [of duplicateFragmentDoc "''Q''" "''F''" "Some ''Q''" ?Q2
        1 abcHeap 0 None None
        "[FRAGMENT_DEFINITION ?F1, OPERATION_DEFINITION ?Q1]" ?Q2 "[FRAGMENT_DEFINITION ?F2]"
        "[FRAGMENT_DEFINITION ?F1, OPERATION_DEFINITION ?Q1, OPERATION_DEFINITION ?Q2]" ?F2 "[]"]
    by (simp_all add: duplicateFragmentDoc_def operationKey_def)
  have f: "fst (extractDefinitions duplicateFragmentDoc) = [(''F'', ?F2)]"
    by (simp add: extractDefinitions_def duplicateFragmentDoc_def)
  have p: "pickSelectionSet 1 abcHeap None [(''F'', ?F2)] [] ''data'' 0
             [FRAGMENT_SPREAD ''F'' []] (getRootType None QUERY) =
           Some (Inr (RObj [(''b'', RVal (JNum 2))]))"
    by (simp add: abcHeap_def leaf_def collectFields_def fieldNodes_def shouldIncludeNode_def
        getFieldEntryKey_def doesFragmentConditionMatch_def getType_def specifiedTypeNames_def
        get_prop_def array_items_def getRootType_def pickField.simps)
  have d: "pickOperationFields 1 abcHeap 0 duplicateDoc (Some ''Q'') None None =
             Some (Inr (RObj [(''b'', RVal (JNum 2))]))"
    "pickOperationFields 1 abcHeap 0 duplicateDoc None None None =
             Some (Inr (RObj [(''c'', RVal (JNum 3))]))"
    using C10_last_definition_wins [of duplicateDoc "''Q''" "''F''" "Some ''Q''"
        "\<lparr>operation = QUERY, operationName = Some ''Q'', operationSelectionSet = [leaf ''b'']\<rparr>"
        1 abcHeap 0 None None]
      C10_last_definition_wins [of duplicateDoc "''Q''" "''F''" None
        "\<lparr>operation = QUERY, operationName = None, operationSelectionSet = [leaf ''c'']\<rparr>"
        1 abcHeap 0 None None]
    by (simp_all add: duplicateDoc_def abcHeap_def leaf_def operationKey_def
        anonymousOperationKey_def extractDefinitions_def collectFields_def fieldNodes_def
        shouldIncludeNode_def getFieldEntryKey_def get_prop_def array_items_def getRootType_def
        pickField.simps)
  from t f p d show ?thesis by simp
qed

section \<open>Request interpretation\<close>




section \<open>Operation resolution\<close>

lemma selectOperation_named:
  "\<not> nullish opName \<Longrightarrow>
   selectOperation opName ds found =
     Inr (case find (\<lambda>d. case operationName d of None \<Rightarrow> False | Some n \<Rightarrow> opName = JsString n)
                 (rev (operationDefinitions ds)) of
            Some d \<Rightarrow> Some d
          | None \<Rightarrow> found)"
proof (induction opName ds found rule: selectOperation.induct)
  case (1 opName found)
  then show ?case by simp
next
  case (2 opName opDef rest found)
  then show ?case by (simp add: find_app split: option.splits)
qed simp_all

lemma selectOperation_unnamed:
  "nullish opName \<Longrightarrow>
   selectOperation opName ds found =
     (if 1 < length (operationDefinitions ds) + (if found = None then 0 else 1)
      then Inl [''Must provide operation name if query contains multiple operations.'']
      else Inr (case operationDefinitions ds of [] \<Rightarrow> found | d # rest \<Rightarrow> Some d))"
proof (induction opName ds found rule: selectOperation.induct)
  case (1 opName found)
  then show ?case by simp
next
  case (2 opName opDef rest found)
  then show ?case by (auto split: list.splits)
qed simp_all

text \<open>
  C5 fails for the \<open>parseDocumentNode\<close> that resolves the operation with
  \<open>buildExecutionContext\<close>: the document holds four operation definitions, two of
  them anonymous, and with the operation name \<open>Q\<close> the resolution succeeds with the
  last operation named \<open>Q\<close>.
\<close>

theorem C5_anonymous_among_multiple_counterexample:
  "length (operationDefinitions duplicateDoc) = 4
   \<and> OPERATION_DEFINITION
        \<lparr>operation = QUERY, operationName = None, operationSelectionSet = [leaf ''c'']\<rparr>
       \<in> set duplicateDoc
   \<and> buildExecutionContext exampleDeps duplicateDoc (JsString ''Q'') JsUndefined =
       Inr (\<lparr>operation = QUERY, operationName = Some ''Q'',
              operationSelectionSet = [leaf ''b'']\<rparr>, JsObject [])
   \<and> parseDocumentNode_exec exampleDeps duplicateDoc (JsString ''Q'') JsUndefined =
       Inr (QUERY, Some ''Q'', JsObject [])"
  by (simp add: duplicateDoc_def parseDocumentNode_exec_def buildExecutionContext_def
      nullish_def exampleDeps_def)

text \<open>
  C5, amended. Let a document hold more than one operation definition, one of them
  anonymous. The \<open>parseDocumentNode\<close> that resolves the operation itself fails with
  "Anonymous operations must be the only defined operation.", whatever operation name
  is passed. The \<open>parseDocumentNode\<close> that resolves the operation with
  \<open>buildExecutionContext\<close> fails with "Must provide operation name if query contains
  multiple operations." when no operation name is passed and with "Unknown operation
  named ..." when the name passed is the name of no operation of the document; when it
  is the name of an operation, the resolution takes the last operation of that name
  and fails only if the coercion of the variable values does. \<open>extractDefinitions\<close>
  raises no error: the table holds an operation under the reserved key.
\<close>

theorem C5_anonymous_among_multiple:
  assumes "1 < length (operationDefinitions ast)"
    and "d \<in> set (operationDefinitions ast)"
    and "\<not> truthyName (operationName d)"
  shows \<open>parseDocumentNode ast opName =
           Inl ''Anonymous operations must be the only defined operation.''
    \<and> (nullish n \<longrightarrow>
         parseDocumentNode_exec deps ast n vars =
           Inl ''Must provide operation name if query contains multiple operations.'')
    \<and> ((\<forall>x. OPERATION_DEFINITION x \<in> set ast \<longrightarrow> operationName x \<noteq> Some s) \<longrightarrow>
         parseDocumentNode_exec deps ast (JsString s) vars =
           Inl (''Unknown operation named "'' @ s @ ''".''))
    \<and> (ast = pre @ OPERATION_DEFINITION x # post \<and> operationName x = Some s \<and>
        (\<forall>y. OPERATION_DEFINITION y \<in> set post \<longrightarrow> operationName y \<noteq> Some s) \<longrightarrow>
         parseDocumentNode_exec deps ast (JsString s) vars =
           (case getVariableValues deps x (if nullish vars then JsObject [] else vars) of
              Inl errors \<Rightarrow> Inl (joinLines errors)
            | Inr coerced \<Rightarrow> Inr (operation x, Some s, coerced)))
    \<and> (\<exists>x. map_of (snd (extractDefinitions ast)) anonymousOperationKey = Some x)\<close>
proof (intro conjI impI)
  from assms(2,3) have "find (\<lambda>def. \<not> truthyName (operationName def)) (operationDefinitions ast) \<noteq> None"
    by (auto simp: find_None_iff)
  then obtain x where x: "find (\<lambda>def. \<not> truthyName (operationName def)) (operationDefinitions ast) = Some x"
    by auto
  from assms(1) obtain a b rest where "operationDefinitions ast = a # b # rest"
    by (cases "operationDefinitions ast"; cases "tl (operationDefinitions ast)") auto
  with x show "parseDocumentNode ast opName =
           Inl ''Anonymous operations must be the only defined operation.''"
    by (simp add: parseDocumentNode_def)
next
  assume "nullish n"
  with assms(1) show "parseDocumentNode_exec deps ast n vars =
           Inl ''Must provide operation name if query contains multiple operations.''"
    by (simp add: parseDocumentNode_exec_def buildExecutionContext_def selectOperation_unnamed)
next
  assume "\<forall>x. OPERATION_DEFINITION x \<in> set ast \<longrightarrow> operationName x \<noteq> Some s"
  then have "find (\<lambda>d. case operationName d of None \<Rightarrow> False | Some n \<Rightarrow> JsString s = JsString n)
               (rev (operationDefinitions ast)) = None"
    by (auto simp: find_None_iff set_operationDefinitions split: option.splits)
  then show \<open>parseDocumentNode_exec deps ast (JsString s) vars =
           Inl (''Unknown operation named "'' @ s @ ''".'')\<close>
    by (simp add: parseDocumentNode_exec_def buildExecutionContext_def selectOperation_named
        nullish_def)
next
  assume a: "ast = pre @ OPERATION_DEFINITION x # post \<and> operationName x = Some s \<and>
    (\<forall>y. OPERATION_DEFINITION y \<in> set post \<longrightarrow> operationName y \<noteq> Some s)"
  then have "find (\<lambda>d. case operationName d of None \<Rightarrow> False | Some n \<Rightarrow> JsString s = JsString n)
               (rev (operationDefinitions post)) = None"
    by (auto simp: find_None_iff set_operationDefinitions split: option.splits)
  with a have "selectOperation (JsString s) ast None = Inr (Some x)"
    by (simp add: selectOperation_named nullish_def operationDefinitions_append find_app)
  then show "parseDocumentNode_exec deps ast (JsString s) vars =
           (case getVariableValues deps x (if nullish vars then JsObject [] else vars) of
              Inl errors \<Rightarrow> Inl (joinLines errors)
            | Inr coerced \<Rightarrow> Inr (operation x, Some s, coerced))"
    using a by (simp add: parseDocumentNode_exec_def buildExecutionContext_def
        split: sum.splits)
next
  from assms(3) have k: "operationKey (operationName d) = anonymousOperationKey"
    by (auto simp: operationKey_def truthyName_def split: option.splits)
  with assms(2) have "find (\<lambda>x. operationKey (operationName x) = anonymousOperationKey)
           (rev (operationDefinitions ast)) \<noteq> None"
    by (auto simp: find_None_iff)
  then obtain x where
    x: "find (\<lambda>x. operationKey (operationName x) = anonymousOperationKey)
           (rev (operationDefinitions ast)) = Some x"
    by auto
  then show "\<exists>x. map_of (snd (extractDefinitions ast)) anonymousOperationKey = Some x"
    by (simp add: extractDefinitions_def map_of_fold_update)
qed

theorem C5_anonymous_among_multiple_witness:
  \<open>parseDocumentNode duplicateDoc (Some ''Q'') =
     Inl ''Anonymous operations must be the only defined operation.''
   \<and> parseDocumentNode_exec exampleDeps duplicateDoc JsNull JsUndefined =
     Inl ''Must provide operation name if query contains multiple operations.''
   \<and> parseDocumentNode_exec exampleDeps duplicateDoc (JsString ''R'') JsUndefined =
     Inl ''Unknown operation named "R".''
   \<and> parseDocumentNode_exec exampleDeps duplicateDoc (JsString ''Q'') JsUndefined =
     Inr (QUERY, Some ''Q'', JsObject [])
   \<and> map_of (snd (extractDefinitions duplicateDoc)) anonymousOperationKey =
     Some \<lparr>operation = QUERY, operationName = None, operationSelectionSet = [leaf ''c'']\<rparr>\<close>
  using C5_anonymous_among_multiple [of duplicateDoc
      "\<lparr>operation = QUERY, operationName = None, operationSelectionSet = [leaf ''c'']\<rparr>"
      "Some ''Q''" JsNull exampleDeps JsUndefined "''R''"
      "[OPERATION_DEFINITION
          \<lparr>operation = QUERY, operationName = Some ''Q'', operationSelectionSet = [leaf ''a'']\<rparr>,
        OPERATION_DEFINITION
          \<lparr>operation = QUERY, operationName = None, operationSelectionSet = [leaf ''a'']\<rparr>]"
      "\<lparr>operation = QUERY, operationName = Some ''Q'', operationSelectionSet = [leaf ''b'']\<rparr>"
      "[OPERATION_DEFINITION
          \<lparr>operation = QUERY, operationName = None, operationSelectionSet = [leaf ''c'']\<rparr>]"]
    C5_anonymous_among_multiple [of duplicateDoc
      "\<lparr>operation = QUERY, operationName = None, operationSelectionSet = [leaf ''c'']\<rparr>"
      "Some ''Q''" JsNull exampleDeps JsUndefined "''Q''"
      "[OPERATION_DEFINITION
          \<lparr>operation = QUERY, operationName = Some ''Q'', operationSelectionSet = [leaf ''a'']\<rparr>,
        OPERATION_DEFINITION
          \<lparr>operation = QUERY, operationName = None, operationSelectionSet = [leaf ''a'']\<rparr>]"
      "\<lparr>operation = QUERY, operationName = Some ''Q'', operationSelectionSet = [leaf ''b'']\<rparr>"
      "[OPERATION_DEFINITION
          \<lparr>operation = QUERY, operationName = None, operationSelectionSet = [leaf ''c'']\<rparr>]"]
  by (simp add: duplicateDoc_def truthyName_def nullish_def exampleDeps_def
      extractDefinitions_def operationKey_def anonymousOperationKey_def)

section \<open>Matching a request against a handler\<close>

text \<open>
  The four conditions of C8 alone do not decide \<open>predicate\<close>: a query handler whose
  pattern accepts the empty string meets all four on an anonymous query, and the
  answer is false.
\<close>

theorem C8_predicate_counterexample:
  "claimedMatch (\<lambda>u p. True) (GraphQLHandler (OPERATION QUERY) (Pattern (\<lambda>s. True)) ''*'')
     anonymousQueryRequest (Some anonymousQueryParsed)
   \<and> fst (predicate (\<lambda>u p. True) exampleDeps
            (GraphQLHandler (OPERATION QUERY) (Pattern (\<lambda>s. True)) ''*'')
            anonymousQueryRequest (Some anonymousQueryParsed)) = False"
  by (simp add: claimedMatch_def predicate_def selectorMatches_def anonymousQueryParsed_def
      truthyName_def)

text \<open>
  C8, amended. \<open>predicate\<close> answers true exactly when a parsed result exists, the parsed
  operation has a name or the handler's operation type is \<open>all\<close>, the URL matches the
  endpoint, the handler's operation type is \<open>all\<close> or equals the parsed one, and the
  selector matches the operation name (a pattern tests the name, or the empty string
  for an anonymous operation; an exact selector is compared by equality). When the
  parsed operation has no name and the handler's operation type is not \<open>all\<close>, it
  answers false after one warning; it has no way to throw.
\<close>

theorem C8_predicate:
  "fst (predicate matchRequestUrl d handler request parsedResult) =
     (claimedMatch matchRequestUrl handler request parsedResult \<and>
      (case parsedResult of
         None \<Rightarrow> False
       | Some parsed \<Rightarrow>
           truthyName (resolvedOperationName parsed) \<or> infoOperationType handler = AllOperations))
   \<and> (parsedResult = Some parsed \<and> \<not> truthyName (resolvedOperationName parsed) \<and>
        infoOperationType handler \<noteq> AllOperations
      \<longrightarrow> predicate matchRequestUrl d handler request parsedResult =
            (False, [anonymousWarning (requestMethod request)
                       (getPublicUrlFromRequest d request)]))"
  by (auto simp: predicate_def claimedMatch_def selectorMatches_def Let_def
      split: option.splits)

theorem C8_predicate_witness:
  "predicate (\<lambda>u p. True) exampleDeps
     (GraphQLHandler (OPERATION QUERY) (Pattern (\<lambda>s. True)) ''*'')
     anonymousQueryRequest (Some anonymousQueryParsed) =
     (False, [anonymousWarning ''POST'' ''http://localhost:8080/graphql''])
   \<and> fst (predicate (\<lambda>u p. True) exampleDeps
            (GraphQLHandler AllOperations (Pattern (\<lambda>s. True)) ''*'')
            anonymousQueryRequest (Some anonymousQueryParsed))"
  using C8_predicate [of "\<lambda>u p. True" exampleDeps
      "GraphQLHandler (OPERATION QUERY) (Pattern (\<lambda>s. True)) ''*''"
      anonymousQueryRequest "Some anonymousQueryParsed" anonymousQueryParsed]
    C8_predicate [of "\<lambda>u p. True" exampleDeps
      "GraphQLHandler AllOperations (Pattern (\<lambda>s. True)) ''*''"
      anonymousQueryRequest "Some anonymousQueryParsed" anonymousQueryParsed]
  by (simp add: claimedMatch_def selectorMatches_def anonymousQueryParsed_def
      anonymousQueryRequest_def exampleDeps_def graphqlUrl_def truthyName_def)

section \<open>What collectFields collects\<close>

lemma set_fieldNodes_addField:
  "set (fieldNodes (addField f fm)) = insert f (set (fieldNodes fm))"
  by (induction f fm rule: addField.induct) (auto simp: fieldNodes_def)

lemma spliced_mono:
  "spliced frags vars sels f \<Longrightarrow> set sels \<subseteq> set sels' \<Longrightarrow> spliced frags vars sels' f"
  by (induction rule: spliced.induct) (auto intro: spliced.intros)

lemma spliced_Cons: "spliced frags vars rest f \<Longrightarrow> spliced frags vars (s # rest) f"
  by (erule spliced_mono) auto

lemma spliced_head_field:
  "shouldIncludeNode vars ds \<Longrightarrow>
   spliced frags vars (FIELD al n ds ss # rest) (FieldNode al n ds ss)"
  by (rule spliced_field) auto

lemma collectFieldsImpl_sound:
  "set (fieldNodes (fst (collectFieldsImpl schema frags vars rt sels st)))
     \<subseteq> set (fieldNodes (fst st)) \<union> {f. spliced frags vars sels f}"
proof (induction schema frags vars rt sels st rule: collectFieldsImpl.induct)
  case (1 schema frags vars rt st)
  then show ?case by simp
next
  case (2 schema frags vars rt al n ds ss rest st)
  show ?case
  proof (cases "shouldIncludeNode vars ds")
    case True
    with 2(1) show ?thesis
      using spliced_head_field [OF True, of frags al n ss rest]
            spliced_Cons [of frags vars rest _ "FIELD al n ds ss"]
      by (simp add: set_fieldNodes_addField) blast
  next
    case False
    with 2(2) show ?thesis
      using spliced_Cons [of frags vars rest _ "FIELD al n ds ss"] by simp blast
  qed
next
  case (3 schema frags vars rt tc ds sub rest st)
  show ?case
  proof (cases "shouldIncludeNode vars ds \<and> doesFragmentConditionMatch schema tc rt")
    case True
    have "spliced frags vars sub f \<Longrightarrow>
          spliced frags vars (INLINE_FRAGMENT tc ds sub # rest) f" for f
      using True by (auto intro: spliced_inline [of tc ds sub])
    with True 3(1,2) show ?thesis
      by (auto intro: spliced_Cons dest!: subsetD)
  next
    case False
    with 3(3) show ?thesis by (auto intro: spliced_Cons)
  qed
next
  case (4 schema frags vars rt n ds rest st)
  show ?case
  proof (cases "n \<in> snd st")
    case True
    with 4(1) show ?thesis by (auto intro: spliced_Cons)
  next
    case nv: False
    show ?thesis
    proof (cases "shouldIncludeNode vars ds")
      case False
      with nv 4(6) show ?thesis by (auto intro: spliced_Cons)
    next
      case inc: True
      show ?thesis
      proof (cases "map_of frags n")
        case None
        with nv inc 4(2) show ?thesis by (auto intro: spliced_Cons)
      next
        case (Some fragment)
        show ?thesis
        proof (cases "doesFragmentConditionMatch schema (Some (typeCondition fragment)) rt")
          case False
          with nv inc Some 4(5) show ?thesis by (auto intro: spliced_Cons)
        next
          case True
          have "spliced frags vars (fragmentSelectionSet fragment) f \<Longrightarrow>
                spliced frags vars (FRAGMENT_SPREAD n ds # rest) f" for f
            using inc Some by (auto intro: spliced_spread [of n ds])
          with nv inc Some True 4(3,4) show ?thesis
            by (auto intro: spliced_Cons dest!: subsetD)
        qed
      qed
    qed
  qed
qed

lemma covered_mono:
  "covered m vars V F sels \<Longrightarrow> V \<subseteq> V' \<Longrightarrow> F \<subseteq> F' \<Longrightarrow> covered m vars V' F' sels"
  by (induction m vars V F sels rule: covered.induct) (auto split: if_splits)

lemma collectFieldsImpl_fields_mono:
  "set (fieldNodes (fst st))
     \<subseteq> set (fieldNodes (fst (collectFieldsImpl schema frags vars rt sels st)))"
proof (induction schema frags vars rt sels st rule: collectFieldsImpl.induct)
  case (1 schema frags vars rt st)
  then show ?case by simp
next
  case (2 schema frags vars rt al n ds ss rest st)
  then show ?case by (auto simp: set_fieldNodes_addField)
next
  case (3 schema frags vars rt tc ds sub rest st)
  then show ?case by simp blast
next
  case (4 schema frags vars rt n ds rest st)
  then show ?case by (simp split: option.splits) blast
qed

lemma collectFieldsImpl_visited_mono:
  "snd st \<subseteq> snd (collectFieldsImpl schema frags vars rt sels st)"
proof (induction schema frags vars rt sels st rule: collectFieldsImpl.induct)
  case (1 schema frags vars rt st)
  then show ?case by simp
next
  case (2 schema frags vars rt al n ds ss rest st)
  then show ?case by auto
next
  case (3 schema frags vars rt tc ds sub rest st)
  then show ?case by simp blast
next
  case (4 schema frags vars rt n ds rest st)
  then show ?case by (simp split: option.splits) blast
qed


lemma closedUnder_trans:
  assumes "closedUnder m frags vars V0 V1 F1" "closedUnder m frags vars V1 V2 F2"
    and "V1 \<subseteq> V2" "F1 \<subseteq> F2"
  shows "closedUnder m frags vars V0 V2 F2"
  unfolding closedUnder_def
proof (intro allI impI)
  fix n fr
  assume a: "n \<in> V2 \<and> n \<notin> V0 \<and> map_of frags n = Some fr \<and> m (Some (typeCondition fr))"
  show "covered m vars V2 F2 (fragmentSelectionSet fr)"
  proof (cases "n \<in> V1")
    case True
    with a assms(1) have "covered m vars V1 F1 (fragmentSelectionSet fr)"
      by (auto simp: closedUnder_def)
    then show ?thesis using assms(3,4) by (rule covered_mono)
  next
    case False
    with a assms(2) show ?thesis by (auto simp: closedUnder_def)
  qed
qed

lemma collectFieldsImpl_complete:
  "m = (\<lambda>tc. doesFragmentConditionMatch schema tc rt) \<Longrightarrow>
   covered m vars (snd (collectFieldsImpl schema frags vars rt sels st))
     (set (fieldNodes (fst (collectFieldsImpl schema frags vars rt sels st)))) sels \<and>
   closedUnder m frags vars (snd st) (snd (collectFieldsImpl schema frags vars rt sels st))
     (set (fieldNodes (fst (collectFieldsImpl schema frags vars rt sels st))))"
proof (induction schema frags vars rt sels st rule: collectFieldsImpl.induct)
  case (1 schema frags vars rt st)
  then show ?case by (auto simp: closedUnder_def)
next
  case (2 schema frags vars rt al n ds ss rest st)
  show ?case
  proof (cases "shouldIncludeNode vars ds")
    case True
    let ?st1 = "(addField (FieldNode al n ds ss) (fst st), snd st)"
    have "FieldNode al n ds ss \<in> set (fieldNodes (fst ?st1))"
      by (simp add: set_fieldNodes_addField)
    then have "FieldNode al n ds ss
        \<in> set (fieldNodes (fst (collectFieldsImpl schema frags vars rt rest ?st1)))"
      using collectFieldsImpl_fields_mono [of ?st1 schema frags vars rt rest] by blast
    with True 2(1) [OF True "2.prems"] show ?thesis by simp
  next
    case False
    with 2(2) [OF False "2.prems"] show ?thesis by simp
  qed
next
  case (3 schema frags vars rt tc ds sub rest st)
  have m: "m tc = doesFragmentConditionMatch schema tc rt"
    using "3.prems" by simp
  show ?case
  proof (cases "shouldIncludeNode vars ds \<and> doesFragmentConditionMatch schema tc rt")
    case c: True
    let ?st1 = "collectFieldsImpl schema frags vars rt sub st"
    let ?st2 = "collectFieldsImpl schema frags vars rt rest ?st1"
    note ih1 = 3(1) [OF c "3.prems"]
    note ih2 = 3(2) [OF c "3.prems"]
    have v: "snd ?st1 \<subseteq> snd ?st2" by (rule collectFieldsImpl_visited_mono)
    have f: "set (fieldNodes (fst ?st1)) \<subseteq> set (fieldNodes (fst ?st2))"
      by (rule collectFieldsImpl_fields_mono)
    have "covered m vars (snd ?st2) (set (fieldNodes (fst ?st2))) sub"
      using ih1 v f by (blast intro: covered_mono)
    moreover have "closedUnder m frags vars (snd st) (snd ?st2) (set (fieldNodes (fst ?st2)))"
      using ih1 ih2 v f by (blast intro: closedUnder_trans)
    ultimately show ?thesis using c ih2 by simp
  next
    case False
    with 3(3) [OF False "3.prems"] m show ?thesis by auto
  qed
next
  case (4 schema frags vars rt n ds rest st)
  show ?case
  proof (cases "n \<in> snd st")
    case True
    have "n \<in> snd (collectFieldsImpl schema frags vars rt rest st)"
      using True collectFieldsImpl_visited_mono [of st schema frags vars rt rest] by blast
    with True 4(1) [OF True "4.prems"] show ?thesis by simp
  next
    case nv: False
    show ?thesis
    proof (cases "shouldIncludeNode vars ds")
      case False
      with nv 4(6) [OF nv False "4.prems"] show ?thesis by simp
    next
      case inc: True
      let ?st0 = "(fst st, insert n (snd st))"
      show ?thesis
      proof (cases "map_of frags n")
        case None
        let ?st2 = "collectFieldsImpl schema frags vars rt rest ?st0"
        note ih = 4(2) [OF nv inc None "4.prems"]
        have n: "n \<in> snd ?st2"
          using collectFieldsImpl_visited_mono [of ?st0 schema frags vars rt rest] by auto
        have "closedUnder m frags vars (snd st) (snd ?st2) (set (fieldNodes (fst ?st2)))"
          unfolding closedUnder_def
        proof (intro allI impI)
          fix k fr
          assume a: "k \<in> snd ?st2 \<and> k \<notin> snd st \<and> map_of frags k = Some fr \<and>
                     m (Some (typeCondition fr))"
          with None have "k \<noteq> n" by auto
          with a ih show "covered m vars (snd ?st2) (set (fieldNodes (fst ?st2)))
                            (fragmentSelectionSet fr)"
            by (auto simp: closedUnder_def)
        qed
        with nv inc None ih n show ?thesis by simp
      next
        case (Some fragment)
        have m: "m (Some (typeCondition fragment)) =
                 doesFragmentConditionMatch schema (Some (typeCondition fragment)) rt"
          using "4.prems" by simp
        show ?thesis
        proof (cases "doesFragmentConditionMatch schema (Some (typeCondition fragment)) rt")
          case c: True
          let ?st1 = "collectFieldsImpl schema frags vars rt (fragmentSelectionSet fragment) ?st0"
          let ?st2 = "collectFieldsImpl schema frags vars rt rest ?st1"
          note ih1 = 4(3) [OF nv inc Some c "4.prems"]
          note ih2 = 4(4) [OF nv inc Some c "4.prems"]
          have v1: "snd ?st0 \<subseteq> snd ?st1" by (rule collectFieldsImpl_visited_mono)
          have v: "snd ?st1 \<subseteq> snd ?st2" by (rule collectFieldsImpl_visited_mono)
          have f: "set (fieldNodes (fst ?st1)) \<subseteq> set (fieldNodes (fst ?st2))"
            by (rule collectFieldsImpl_fields_mono)
          have n: "n \<in> snd ?st2" using v1 v by auto
          have body: "covered m vars (snd ?st2) (set (fieldNodes (fst ?st2)))
                        (fragmentSelectionSet fragment)"
            using ih1 v f by (blast intro: covered_mono)
          have cl: "closedUnder m frags vars (insert n (snd st)) (snd ?st2)
                      (set (fieldNodes (fst ?st2)))"
            using ih1 ih2 v f closedUnder_trans [of m frags vars "insert n (snd st)" "snd ?st1"
                "set (fieldNodes (fst ?st1))" "snd ?st2" "set (fieldNodes (fst ?st2))"]
            by simp
          have "closedUnder m frags vars (snd st) (snd ?st2) (set (fieldNodes (fst ?st2)))"
            unfolding closedUnder_def
          proof (intro allI impI)
            fix k fr
            assume a: "k \<in> snd ?st2 \<and> k \<notin> snd st \<and> map_of frags k = Some fr \<and>
                       m (Some (typeCondition fr))"
            show "covered m vars (snd ?st2) (set (fieldNodes (fst ?st2)))
                    (fragmentSelectionSet fr)"
            proof (cases "k = n")
              case True
              with a Some body show ?thesis by simp
            next
              case False
              with a cl show ?thesis by (auto simp: closedUnder_def)
            qed
          qed
          with nv inc Some c ih2 n show ?thesis by simp
        next
          case c: False
          let ?st2 = "collectFieldsImpl schema frags vars rt rest ?st0"
          note ih = 4(5) [OF nv inc Some c "4.prems"]
          have n: "n \<in> snd ?st2"
            using collectFieldsImpl_visited_mono [of ?st0 schema frags vars rt rest] by auto
          have "closedUnder m frags vars (snd st) (snd ?st2) (set (fieldNodes (fst ?st2)))"
            unfolding closedUnder_def
          proof (intro allI impI)
            fix k fr
            assume a: "k \<in> snd ?st2 \<and> k \<notin> snd st \<and> map_of frags k = Some fr \<and>
                       m (Some (typeCondition fr))"
            with Some c m have "k \<noteq> n" by auto
            with a ih show "covered m vars (snd ?st2) (set (fieldNodes (fst ?st2)))
                              (fragmentSelectionSet fr)"
              by (auto simp: closedUnder_def)
          qed
          with nv inc Some c ih n show ?thesis by simp
        qed
      qed
    qed
  qed
qed

lemma covered_fieldD:
  "covered m vars V F sels \<Longrightarrow> FIELD al n ds ss \<in> set sels \<Longrightarrow> shouldIncludeNode vars ds \<Longrightarrow>
   FieldNode al n ds ss \<in> F"
  by (induction m vars V F sels rule: covered.induct) (auto split: if_splits)

lemma covered_inlineD:
  "covered m vars V F sels \<Longrightarrow> INLINE_FRAGMENT tc ds sub \<in> set sels \<Longrightarrow>
   shouldIncludeNode vars ds \<Longrightarrow> m tc \<Longrightarrow> covered m vars V F sub"
  by (induction m vars V F sels rule: covered.induct) (auto split: if_splits)

lemma covered_spreadD:
  "covered m vars V F sels \<Longrightarrow> FRAGMENT_SPREAD n ds \<in> set sels \<Longrightarrow>
   shouldIncludeNode vars ds \<Longrightarrow> n \<in> V"
  by (induction m vars V F sels rule: covered.induct) (auto split: if_splits)

lemma covered_selected:
  "selected m frags vars sels f \<Longrightarrow> closedUnder m frags vars {} V F \<Longrightarrow>
   covered m vars V F sels \<Longrightarrow> f \<in> F"
proof (induction rule: selected.induct)
  case (selected_field al n ds ss sels)
  then show ?case by (auto dest: covered_fieldD)
next
  case (selected_inline tc ds sub sels f)
  then show ?case by (auto dest: covered_inlineD)
next
  case (selected_spread n ds sels fragment f)
  from selected_spread(1,2,8) have "n \<in> V" by (auto dest: covered_spreadD)
  with selected_spread(3,4,7) have "covered m vars V F (fragmentSelectionSet fragment)"
    by (auto simp: closedUnder_def)
  with selected_spread show ?case by simp
qed

lemma selected_mono:
  "selected m frags vars sels f \<Longrightarrow> set sels \<subseteq> set sels' \<Longrightarrow> selected m frags vars sels' f"
  by (induction rule: selected.induct) (auto intro: selected.intros)

lemma selected_Cons: "selected m frags vars rest f \<Longrightarrow> selected m frags vars (s # rest) f"
  by (erule selected_mono) auto

lemma selected_spliced: "selected m frags vars sels f \<Longrightarrow> spliced frags vars sels f"
  by (induction rule: selected.induct) (auto intro: spliced.intros)

lemma spliced_selected: "spliced frags vars sels f \<Longrightarrow> selected (\<lambda>tc. True) frags vars sels f"
  by (induction rule: spliced.induct) (auto intro: selected.intros)

lemma selected_weaken:
  "selected m frags vars sels f \<Longrightarrow> (\<And>tc. m tc \<Longrightarrow> m' tc) \<Longrightarrow> selected m' frags vars sels f"
  by (induction rule: selected.induct) (auto intro: selected.intros)


lemma collectFieldsImpl_selected:
  "set (fieldNodes (fst (collectFieldsImpl schema frags vars rt sels st)))
     \<subseteq> set (fieldNodes (fst st)) \<union>
       {f. selected (\<lambda>tc. doesFragmentConditionMatch schema tc rt) frags vars sels f}"
proof (induction schema frags vars rt sels st rule: collectFieldsImpl.induct)
  case (1 schema frags vars rt st)
  then show ?case by simp
next
  case (2 schema frags vars rt al n ds ss rest st)
  let ?m = "\<lambda>tc. doesFragmentConditionMatch schema tc rt"
  show ?case
  proof (cases "shouldIncludeNode vars ds")
    case True
    have "selected ?m frags vars (FIELD al n ds ss # rest) (FieldNode al n ds ss)"
      using True by (auto intro: selected_field)
    with True 2(1) show ?thesis
      using selected_Cons [of ?m frags vars rest _ "FIELD al n ds ss"]
      by (simp add: set_fieldNodes_addField) blast
  next
    case False
    with 2(2) show ?thesis
      using selected_Cons [of ?m frags vars rest _ "FIELD al n ds ss"] by simp blast
  qed
next
  case (3 schema frags vars rt tc ds sub rest st)
  let ?m = "\<lambda>tc. doesFragmentConditionMatch schema tc rt"
  show ?case
  proof (cases "shouldIncludeNode vars ds \<and> doesFragmentConditionMatch schema tc rt")
    case True
    have "selected ?m frags vars sub f \<Longrightarrow>
          selected ?m frags vars (INLINE_FRAGMENT tc ds sub # rest) f" for f
      using True by (auto intro: selected_inline [of tc ds sub])
    with True 3(1,2) show ?thesis
      by (auto intro: selected_Cons dest!: subsetD)
  next
    case False
    with 3(3) show ?thesis by (auto intro: selected_Cons)
  qed
next
  case (4 schema frags vars rt n ds rest st)
  let ?m = "\<lambda>tc. doesFragmentConditionMatch schema tc rt"
  show ?case
  proof (cases "n \<in> snd st")
    case True
    with 4(1) show ?thesis by (auto intro: selected_Cons)
  next
    case nv: False
    show ?thesis
    proof (cases "shouldIncludeNode vars ds")
      case False
      with nv 4(6) show ?thesis by (auto intro: selected_Cons)
    next
      case inc: True
      show ?thesis
      proof (cases "map_of frags n")
        case None
        with nv inc 4(2) show ?thesis by (auto intro: selected_Cons)
      next
        case (Some fragment)
        show ?thesis
        proof (cases "doesFragmentConditionMatch schema (Some (typeCondition fragment)) rt")
          case False
          with nv inc Some 4(5) show ?thesis by (auto intro: selected_Cons)
        next
          case True
          have "selected ?m frags vars (fragmentSelectionSet fragment) f \<Longrightarrow>
                selected ?m frags vars (FRAGMENT_SPREAD n ds # rest) f" for f
            using inc Some True by (auto intro: selected_spread [of n ds])
          with nv inc Some True 4(3,4) show ?thesis
            by (auto intro: selected_Cons dest!: subsetD)
        qed
      qed
    qed
  qed
qed

lemma collectFields_selected:
  "set (fieldNodes (collectFields schema frags vars rt sels)) =
     {f. selected (\<lambda>tc. doesFragmentConditionMatch schema tc rt) frags vars sels f}"
proof
  show "set (fieldNodes (collectFields schema frags vars rt sels))
          \<subseteq> {f. selected (\<lambda>tc. doesFragmentConditionMatch schema tc rt) frags vars sels f}"
    using collectFieldsImpl_selected [of schema frags vars rt sels "([], {})"]
    by (simp add: collectFields_def fieldNodes_def)
  show "{f. selected (\<lambda>tc. doesFragmentConditionMatch schema tc rt) frags vars sels f}
          \<subseteq> set (fieldNodes (collectFields schema frags vars rt sels))"
    using collectFieldsImpl_complete [OF refl, of schema rt vars frags sels "([], {})"]
    by (auto simp: collectFields_def dest: covered_selected)
qed

lemma collectFields_sound:
  "f \<in> set (fieldNodes (collectFields schema frags vars rt sels)) \<Longrightarrow> spliced frags vars sels f"
  by (simp add: collectFields_selected selected_spliced)

section \<open>Keys of a projected object\<close>

lemma get_prop_unowned:
  assumes "\<not> hasOwnProperty h a k"
  shows "\<forall>b. get_prop h a k \<noteq> JRef b" and "array_items h (get_prop h a k) = None"
proof -
  show "\<forall>b. get_prop h a k \<noteq> JRef b"
  proof (cases "h a")
    case None
    then show ?thesis by (simp add: get_prop_def)
  next
    case (Some ob)
    with assms have "own_property ob k = None"
      by (auto simp: hasOwnProperty_def split: option.splits)
    with Some show ?thesis
      by (cases ob) (auto simp: get_prop_def)
  qed
  then show "array_items h (get_prop h a k) = None"
    by (cases "get_prop h a k") (auto simp: array_items_def)
qed

lemma get_prop_undefined:
  "\<not> hasOwnProperty h a k \<Longrightarrow> k \<notin> set objectPrototype \<Longrightarrow> k \<notin> set arrayPrototype \<Longrightarrow>
   get_prop h a k = JUndefined"
  by (cases "h a"; cases "the (h a)")
     (auto simp: hasOwnProperty_def get_prop_def split: option.splits)

lemma pickField_copies:
  "\<forall>b. v \<noteq> JRef b \<Longrightarrow> pickField n h schema frags vars p f v = Some (Inr (RVal v))"
  by (cases v) (auto simp: pickField.simps split: option.splits)

lemma pickNodes_keys:
  "pickNodes n h schema frags vars path a fns acc = Some (Inr r) \<Longrightarrow>
   \<exists>kvs. r = RObj kvs \<and> fst ` set kvs = fst ` set acc \<union> fieldName ` set fns"
proof (induction fns arbitrary: acc)
  case Nil
  then show ?case by auto
next
  case (Cons f fns)
  from Cons.prems obtain v where
    "pickNodes n h schema frags vars path a fns (AList.update (fieldName f) v acc) = Some (Inr r)"
    by (auto simp: Let_def split: option.splits sum.splits)
  from Cons.IH [OF this] show ?case by (auto simp: dom_update)
qed

lemma pickNodes_step:
  assumes "pickNodes n h schema frags vars path a (f # fns) acc = Some (Inr r)"
  shows "\<exists>v. pickNodes n h schema frags vars path a fns (AList.update (fieldName f) v acc) =
               Some (Inr r) \<and>
             (\<not> hasOwnProperty h a (fieldName f) \<longrightarrow> v = RVal (get_prop h a (fieldName f)))"
proof (cases "hasOwnProperty h a (fieldName f)")
  case True
  from assms obtain v where
    "pickNodes n h schema frags vars path a fns (AList.update (fieldName f) v acc) = Some (Inr r)"
    by (auto simp: Let_def split: option.splits sum.splits)
  with True show ?thesis by blast
next
  case False
  note u = get_prop_unowned [OF False]
  have "pickField n h schema frags vars (path @ ''.'' @ fieldName f) f
          (get_prop h a (fieldName f)) = Some (Inr (RVal (get_prop h a (fieldName f))))"
    using u(1) by (rule pickField_copies)
  with assms u(2) have
    "pickNodes n h schema frags vars path a fns
       (AList.update (fieldName f) (RVal (get_prop h a (fieldName f))) acc) = Some (Inr r)"
    by (simp add: Let_def)
  then show ?thesis by blast
qed

lemma pickNodes_keeps:
  "pickNodes n h schema frags vars path a fns acc = Some (Inr (RObj kvs)) \<Longrightarrow>
   \<not> hasOwnProperty h a k \<Longrightarrow> map_of acc k = Some (RVal (get_prop h a k)) \<Longrightarrow>
   map_of kvs k = Some (RVal (get_prop h a k))"
proof (induction fns arbitrary: acc)
  case Nil
  then show ?case by simp
next
  case (Cons f fns)
  from Cons.prems(1) obtain v where
    v: "pickNodes n h schema frags vars path a fns (AList.update (fieldName f) v acc) =
          Some (Inr (RObj kvs))"
    and u: "\<not> hasOwnProperty h a (fieldName f) \<longrightarrow> v = RVal (get_prop h a (fieldName f))"
    using pickNodes_step by blast
  have "map_of (AList.update (fieldName f) v acc) k = Some (RVal (get_prop h a k))"
    using Cons.prems(2,3) u by (cases "fieldName f = k") (auto simp: update_conv')
  with Cons.IH [OF v Cons.prems(2)] show ?case by simp
qed

lemma pickNodes_binds:
  "pickNodes n h schema frags vars path a fns acc = Some (Inr (RObj kvs)) \<Longrightarrow>
   f \<in> set fns \<Longrightarrow> \<not> hasOwnProperty h a (fieldName f) \<Longrightarrow>
   map_of kvs (fieldName f) = Some (RVal (get_prop h a (fieldName f)))"
proof (induction fns arbitrary: acc)
  case Nil
  then show ?case by simp
next
  case (Cons g fns)
  from Cons.prems(1) obtain v where
    v: "pickNodes n h schema frags vars path a fns (AList.update (fieldName g) v acc) =
          Some (Inr (RObj kvs))"
    and u: "\<not> hasOwnProperty h a (fieldName g) \<longrightarrow> v = RVal (get_prop h a (fieldName g))"
    using pickNodes_step by blast
  show ?case
  proof (cases "fieldName g = fieldName f")
    case True
    with u Cons.prems(3) have
      "map_of (AList.update (fieldName g) v acc) (fieldName f) =
         Some (RVal (get_prop h a (fieldName f)))"
      by (simp add: update_conv')
    with v Cons.prems(3) show ?thesis by (rule pickNodes_keeps)
  next
    case False
    with Cons.prems(2) have "f \<in> set fns" by auto
    with Cons.IH [OF v _ Cons.prems(3)] show ?thesis by simp
  qed
qed

lemma pickSelectionSet_keys:
  assumes "pickSelectionSet n h schema frags vars path a sels rt = Some (Inr r)"
  shows "\<exists>kvs. r = RObj kvs \<and>
           fst ` set kvs =
             fieldName ` {f. selected (\<lambda>tc. doesFragmentConditionMatch schema tc rt)
                               frags vars sels f}"
proof -
  from assms obtain m where
    "pickNodes m h schema frags vars path a
       (fieldNodes (collectFields schema frags vars rt sels)) [] = Some (Inr r)"
    by (cases n) auto
  from pickNodes_keys [OF this] show ?thesis by (simp add: collectFields_selected)
qed

lemma pickSelectionSet_binds:
  assumes "pickSelectionSet n h schema frags vars path a sels rt = Some (Inr (RObj kvs))"
    and "selected (\<lambda>tc. doesFragmentConditionMatch schema tc rt) frags vars sels f"
    and "\<not> hasOwnProperty h a (fieldName f)"
  shows "map_of kvs (fieldName f) = Some (RVal (get_prop h a (fieldName f)))"
proof -
  from assms(1) obtain m where
    m: "pickNodes m h schema frags vars path a
       (fieldNodes (collectFields schema frags vars rt sels)) [] = Some (Inr (RObj kvs))"
    by (cases n) auto
  from assms(2) have "f \<in> set (fieldNodes (collectFields schema frags vars rt sels))"
    by (simp add: collectFields_selected)
  with m show ?thesis using assms(3) by (rule pickNodes_binds)
qed

lemma pickNodes_plain_keys:
  "pickNodes_plain n h frags vars a fns acc = Some r \<Longrightarrow>
   \<exists>kvs. r = RObj kvs \<and>
     fst ` set kvs =
       fst ` set acc \<union> fieldName ` {f \<in> set fns. hasOwnProperty h a (fieldName f)}"
proof (induction fns arbitrary: acc)
  case Nil
  then show ?case by auto
next
  case (Cons f fns)
  show ?case
  proof (cases "hasOwnProperty h a (fieldName f)")
    case False
    with Cons.prems have "pickNodes_plain n h frags vars a fns acc = Some r" by simp
    from Cons.IH [OF this] False show ?thesis by auto
  next
    case True
    with Cons.prems obtain v where
      "pickNodes_plain n h frags vars a fns (AList.update (fieldName f) v acc) = Some r"
      by (auto simp: Let_def split: option.splits)
    from Cons.IH [OF this] True show ?thesis by (auto simp: dom_update)
  qed
qed

lemma unresolved_match: "doesFragmentConditionMatch None tc None = unresolved tc"
  by (simp add: doesFragmentConditionMatch_def unresolved_def getType_def split: option.splits)

lemma pickSelectionSet_plain_keys:
  assumes "pickSelectionSet_plain n h frags vars a sels = Some r"
  shows "\<exists>kvs. r = RObj kvs \<and>
           fst ` set kvs =
             fieldName ` {f. selected unresolved frags vars sels f \<and>
                             hasOwnProperty h a (fieldName f)}"
proof -
  from assms obtain m where
    "pickNodes_plain m h frags vars a (fieldNodes (collectFields None frags vars None sels)) [] =
       Some r"
    by (cases n) auto
  from pickNodes_plain_keys [OF this] show ?thesis
    by (simp add: collectFields_selected unresolved_match)
qed

section \<open>Fields the payload does not own\<close>

lemma projectsFields_update:
  "projectsFields strict h kvs a \<Longrightarrow>
   (if hasOwnProperty h a k then projects strict h r (get_prop h a k)
    else if strict then False else r = RVal (get_prop h a k)) \<Longrightarrow>
   projectsFields strict h (AList.update k r kvs) a"
  by (induction kvs) (auto split: if_splits)

lemma pick_projects:
  "pickField n h schema frags vars fieldPath fieldNode fieldData = Some (Inr r) \<Longrightarrow>
     projects False h r fieldData"
  "pickSelectionSet n h schema frags vars path a sels rt = Some (Inr r) \<Longrightarrow>
     projects False h r (JRef a)"
  "pickNodes n h schema frags vars path a fns acc = Some (Inr r) \<Longrightarrow>
     projectsFields False h acc a \<Longrightarrow> projects False h r (JRef a)"
  "pickItems n h schema frags vars prefix fieldNode items i = Some (Inr rs) \<Longrightarrow>
     projectsItems False h rs items"
proof (induction n h schema frags vars fieldPath fieldNode fieldData
         and n h schema frags vars path a sels rt
         and n h schema frags vars path a fns acc
         and n h schema frags vars prefix fieldNode items i
         arbitrary: r and r and r and rs
         rule: pickField_pickSelectionSet_pickNodes_pickItems.induct)
  case (1 n h schema frags vars fieldPath fieldNode fieldData)
  then show ?case
    by (auto simp: pickField.simps Let_def split: option.splits jsval.splits if_splits)
next
  case (2 h schema frags vars path a sels runtimeObject)
  then show ?case by simp
next
  case (3 n h schema frags vars path a sels runtimeObject)
  then show ?case by simp
next
  case (4 n h schema frags vars path a pickedData)
  then show ?case by auto
next
  case (5 n h schema frags vars path a fieldNode rest pickedData)
  let ?k = "fieldName fieldNode"
  let ?d = "get_prop h a ?k"
  from "5.prems"(1) obtain v where
    v: "(case array_items h ?d of
           Some items \<Rightarrow>
             (case pickItems n h schema frags vars (path @ ''.'' @ ?k) fieldNode items 0 of
                None \<Rightarrow> None
              | Some (Inl e) \<Rightarrow> Some (Inl e)
              | Some (Inr vs) \<Rightarrow> Some (Inr (RArr vs)))
         | None \<Rightarrow> pickField n h schema frags vars (path @ ''.'' @ ?k) fieldNode ?d) = Some (Inr v)"
    and rest: "pickNodes n h schema frags vars path a rest (AList.update ?k v pickedData) = Some (Inr r)"
    by (auto simp: Let_def split: option.splits sum.splits)
  have pv: "projects False h v ?d"
  proof (cases "array_items h ?d")
    case None
    with v 5(1) [OF refl None] show ?thesis by simp
  next
    case (Some items)
    with v obtain vs where vs: "pickItems n h schema frags vars (path @ ''.'' @ ?k) fieldNode items 0 = Some (Inr vs)"
      and "v = RArr vs"
      by (auto split: option.splits sum.splits)
    with 5(2) [OF refl Some vs] Some show ?thesis by simp
  qed
  have "if hasOwnProperty h a ?k then projects False h v ?d else v = RVal ?d"
  proof (cases "hasOwnProperty h a ?k")
    case True
    with pv show ?thesis by simp
  next
    case False
    from get_prop_unowned [OF False] pv False show ?thesis
      by (cases v) (auto split: jsval.splits)
  qed
  then have "projectsFields False h (AList.update ?k v pickedData) a"
    using "5.prems"(2) by (intro projectsFields_update) auto
  with 5(3) [OF refl refl v refl rest] show ?case by simp
next
  case (6 n h schema frags vars prefix fieldNode i)
  then show ?case by simp
next
  case (7 n h schema frags vars prefix fieldNode x xs i)
  then show ?case by (auto split: option.splits sum.splits)
qed


lemma pick_plain_projects:
  "pickField_plain n h frags vars fieldNode fieldData = Some r \<Longrightarrow>
     projects True h r fieldData"
  "pickSelectionSet_plain n h frags vars a sels = Some r \<Longrightarrow>
     projects True h r (JRef a)"
  "pickNodes_plain n h frags vars a fns acc = Some r \<Longrightarrow>
     projectsFields True h acc a \<Longrightarrow> projects True h r (JRef a)"
  "pickItems_plain n h frags vars fieldNode items = Some rs \<Longrightarrow>
     projectsItems True h rs items"
proof (induction n h frags vars fieldNode fieldData
         and n h frags vars a sels
         and n h frags vars a fns acc
         and n h frags vars fieldNode items
         arbitrary: r and r and r and rs
         rule: pickField_plain_pickSelectionSet_plain_pickNodes_plain_pickItems_plain.induct)
  case (1 n h frags vars fieldNode fieldData)
  then show ?case
    by (auto simp: pickField_plain.simps split: option.splits jsval.splits)
next
  case (2 h frags vars a sels)
  then show ?case by simp
next
  case (3 n h frags vars a sels)
  then show ?case by simp
next
  case (4 n h frags vars a pickedData)
  then show ?case by auto
next
  case (5 n h frags vars a fieldNode rest pickedData)
  let ?k = "fieldName fieldNode"
  let ?d = "get_prop h a ?k"
  show ?case
  proof (cases "hasOwnProperty h a ?k")
    case False
    with "5.prems" 5(4) [OF False] show ?thesis by simp
  next
    case True
    with "5.prems"(1) obtain v where
      v: "(case array_items h ?d of
             Some items \<Rightarrow>
               (case pickItems_plain n h frags vars fieldNode items of
                  None \<Rightarrow> None
                | Some vs \<Rightarrow> Some (RArr vs))
           | None \<Rightarrow> pickField_plain n h frags vars fieldNode ?d) = Some v"
      and rest: "pickNodes_plain n h frags vars a rest (AList.update ?k v pickedData) = Some r"
      by (auto simp: Let_def split: option.splits)
    have pv: "projects True h v ?d"
    proof (cases "array_items h ?d")
      case None
      with v 5(1) [OF True refl None] show ?thesis by simp
    next
      case (Some items)
      with v obtain vs where vs: "pickItems_plain n h frags vars fieldNode items = Some vs"
        and "v = RArr vs"
        by (auto split: option.splits)
      with 5(2) [OF True refl Some vs] Some show ?thesis by simp
    qed
    then have "projectsFields True h (AList.update ?k v pickedData) a"
      using "5.prems"(2) True by (intro projectsFields_update) auto
    with 5(3) [OF True refl refl v rest] show ?thesis by simp
  qed
next
  case (6 n h frags vars fieldNode)
  then show ?case by simp
next
  case (7 n h frags vars fieldNode x xs)
  then show ?case by (auto split: option.splits)
qed

text \<open>
  C1 fails for \<open>pickOperationFields\<close> with the optional schema: the payload object has
  no \<open>name\<close>, the query selects it, and the projected object holds the key, bound to
  undefined.
\<close>

theorem C1_absent_field_counterexample:
  "\<not> hasOwnProperty abcHeap 0 ''name'' \<and>
   pickOperationFields 1 abcHeap 0 nameDoc None None None =
     Some (Inr (RObj [(''a'', RVal (JNum 1)), (''name'', RVal JUndefined)]))"
  by (simp add: hasOwnProperty_def abcHeap_def nameDoc_def pickOperationFields_def
      extractDefinitions_def operationKey_def anonymousOperationKey_def collectFields_def
      fieldNodes_def shouldIncludeNode_def getFieldEntryKey_def get_prop_def array_items_def
      getRootType_def pickField.simps objectPrototype_def)

text \<open>
  C1, amended. A selected field that the payload object does not own is never given a
  null or another default. The module without schema support omits it: at every
  nesting depth its projected objects hold only keys that the corresponding payload
  object owns, so a selected field that the object does not own is no key of the
  projection. \<open>pickOperationFields\<close> with the optional schema keeps it: at every
  nesting depth, the projection of an object holds a key for every field that its
  selection set selects (other than \<open>__proto__\<close>), and for a field that the object
  does not own the key is bound to what a read of that property on the object gives,
  which is undefined unless the name is one that the object inherits from its
  prototype, such as \<open>constructor\<close> or \<open>toString\<close>, and then is the inherited function.
\<close>

theorem C1_absent_field:
  "(pickOperationFields_plain fuel h data doc opName vars = Some (Inr r) \<longrightarrow>
      projects True h r (JRef data))
   \<and> (pickSelectionSet_plain n h frags vs a sels = Some r0 \<and> \<not> hasOwnProperty h a k \<longrightarrow>
      (\<exists>kvs. r0 = RObj kvs \<and> k \<notin> fst ` set kvs))
   \<and> (pickOperationFields fuel h data doc opName vars schema = Some (Inr r') \<longrightarrow>
      projects False h r' (JRef data))
   \<and> (pickSelectionSet n h schema frags vs path a sels rt = Some (Inr r1) \<and>
       selected (\<lambda>tc. doesFragmentConditionMatch schema tc rt) frags vs sels f \<and>
       fieldName f \<noteq> ''__proto__'' \<and> \<not> hasOwnProperty h a (fieldName f) \<longrightarrow>
      (\<exists>kvs. r1 = RObj kvs \<and> fieldName f \<in> fst ` set kvs \<and>
         map_of kvs (fieldName f) = Some (RVal (get_prop h a (fieldName f))) \<and>
         (fieldName f \<notin> set objectPrototype \<and> fieldName f \<notin> set arrayPrototype \<longrightarrow>
            map_of kvs (fieldName f) = Some (RVal JUndefined))))"
proof (intro conjI impI)
  assume "pickOperationFields_plain fuel h data doc opName vars = Some (Inr r)"
  then show "projects True h r (JRef data)"
    by (auto simp: pickOperationFields_plain_def split: prod.splits option.splits if_splits
        dest: pick_plain_projects(2))
next
  assume a: "pickSelectionSet_plain n h frags vs a sels = Some r0 \<and> \<not> hasOwnProperty h a k"
  then have "pickSelectionSet_plain n h frags vs a sels = Some r0" by simp
  from pickSelectionSet_plain_keys [OF this] a
  show "\<exists>kvs. r0 = RObj kvs \<and> k \<notin> fst ` set kvs" by auto
next
  assume "pickOperationFields fuel h data doc opName vars schema = Some (Inr r')"
  then show "projects False h r' (JRef data)"
    by (auto simp: pickOperationFields_def split: prod.splits option.splits if_splits
        dest: pick_projects(2))
next
  assume a: "pickSelectionSet n h schema frags vs path a sels rt = Some (Inr r1) \<and>
       selected (\<lambda>tc. doesFragmentConditionMatch schema tc rt) frags vs sels f \<and>
       fieldName f \<noteq> ''__proto__'' \<and> \<not> hasOwnProperty h a (fieldName f)"
  then have p: "pickSelectionSet n h schema frags vs path a sels rt = Some (Inr r1)"
    and s: "selected (\<lambda>tc. doesFragmentConditionMatch schema tc rt) frags vs sels f"
    and o: "\<not> hasOwnProperty h a (fieldName f)"
    by simp_all
  from pickSelectionSet_keys [OF p] obtain kvs where
    k: "r1 = RObj kvs"
      "fst ` set kvs =
         fieldName ` {f. selected (\<lambda>tc. doesFragmentConditionMatch schema tc rt)
                           frags vs sels f}"
    by auto
  with s have m: "fieldName f \<in> fst ` set kvs" by auto
  from p k(1) have "pickSelectionSet n h schema frags vs path a sels rt = Some (Inr (RObj kvs))"
    by simp
  from pickSelectionSet_binds [OF this s o]
  have b: "map_of kvs (fieldName f) = Some (RVal (get_prop h a (fieldName f)))" .
  have "map_of kvs (fieldName f) = Some (RVal JUndefined)"
    if "fieldName f \<notin> set objectPrototype \<and> fieldName f \<notin> set arrayPrototype"
    using b that o by (simp add: get_prop_undefined)
  with k(1) m b
  show "\<exists>kvs. r1 = RObj kvs \<and> fieldName f \<in> fst ` set kvs \<and>
         map_of kvs (fieldName f) = Some (RVal (get_prop h a (fieldName f))) \<and>
         (fieldName f \<notin> set objectPrototype \<and> fieldName f \<notin> set arrayPrototype \<longrightarrow>
            map_of kvs (fieldName f) = Some (RVal JUndefined))"
    by blast
qed

theorem C1_absent_field_witness:
  "pickOperationFields_plain 1 abcHeap 0 nameDoc None None =
     Some (Inr (RObj [(''a'', RVal (JNum 1))]))
   \<and> projects True abcHeap (RObj [(''a'', RVal (JNum 1))]) (JRef 0)
   \<and> ''name'' \<notin> fst ` set [(''a'', RVal (JNum 1))]
   \<and> pickOperationFields 1 abcHeap 0 nameDoc None None None =
     Some (Inr (RObj [(''a'', RVal (JNum 1)), (''name'', RVal JUndefined)]))
   \<and> projects False abcHeap (RObj [(''a'', RVal (JNum 1)), (''name'', RVal JUndefined)]) (JRef 0)
   \<and> pickSelectionSet 1 abcHeap None [] [] ''data'' 0 [leaf ''a'', leaf ''toString''] None =
     Some (Inr (RObj [(''a'', RVal (JNum 1)),
                      (''toString'', RVal (JFun ''Object.prototype.toString''))]))
   \<and> get_prop abcHeap 0 ''toString'' = JFun ''Object.prototype.toString''
   \<and> pickSelectionSet 1 abcHeap None [] [] ''data'' 0 [leaf ''a'', leaf ''name''] None =
     Some (Inr (RObj [(''a'', RVal (JNum 1)), (''name'', RVal JUndefined)]))
   \<and> map_of [(''a'', RVal (JNum 1)), (''name'', RVal JUndefined)] ''name'' =
     Some (RVal JUndefined)"
proof -
  have e: "pickOperationFields_plain 1 abcHeap 0 nameDoc None None =
             Some (Inr (RObj [(''a'', RVal (JNum 1))]))"
    "pickSelectionSet_plain 1 abcHeap [] [] 0 [leaf ''a'', leaf ''name''] =
             Some (RObj [(''a'', RVal (JNum 1))])"
    "pickOperationFields 1 abcHeap 0 nameDoc None None None =
             Some (Inr (RObj [(''a'', RVal (JNum 1)), (''name'', RVal JUndefined)]))"
    "pickSelectionSet 1 abcHeap None [] [] ''data'' 0 [leaf ''a'', leaf ''toString''] None =
             Some (Inr (RObj [(''a'', RVal (JNum 1)),
                              (''toString'', RVal (JFun ''Object.prototype.toString''))]))"
    "\<not> hasOwnProperty abcHeap 0 ''name''" "\<not> hasOwnProperty abcHeap 0 ''toString''"
    by (simp_all add: hasOwnProperty_def abcHeap_def nameDoc_def leaf_def
        pickOperationFields_plain_def pickOperationFields_def extractDefinitions_def
        operationKey_def anonymousOperationKey_def collectFields_def fieldNodes_def
        shouldIncludeNode_def getFieldEntryKey_def get_prop_def array_items_def
        getRootType_def pickField_plain.simps pickField.simps objectPrototype_def)
  have s: "selected (\<lambda>tc. doesFragmentConditionMatch None tc None) [] []
             [leaf ''a'', leaf ''toString''] (FieldNode None ''toString'' [] None)"
    unfolding leaf_def by (rule selected_field) (simp_all add: shouldIncludeNode_def)
  let ?r = "RObj [(''a'', RVal (JNum 1))]"
  let ?r' = "RObj [(''a'', RVal (JNum 1)), (''name'', RVal JUndefined)]"
  let ?r1 = "RObj [(''a'', RVal (JNum 1)),
                   (''toString'', RVal (JFun ''Object.prototype.toString''))]"
  let ?f = "FieldNode None ''toString'' [] None"
  note t = C1_absent_field [where fuel = 1 and h = abcHeap and data = 0 and doc = nameDoc
      and opName = None and vars = None and r = ?r
      and n = 1 and frags = "[]" and vs = "[]" and a = 0
      and sels = "[leaf ''a'', leaf ''name'']" and ?r0.0 = ?r
      and k = "''name''" and schema = None and r' = ?r']
  note u = C1_absent_field [where h = abcHeap and n = 1 and frags = "[]" and vs = "[]"
      and a = 0 and sels = "[leaf ''a'', leaf ''toString'']" and schema = None
      and path = "''data''" and rt = None and ?r1.0 = ?r1 and f = ?f]
  have p1: "projects True abcHeap ?r (JRef 0)"
    by (rule t [THEN conjunct1, THEN mp, OF e(1)])
  have "\<exists>kvs. ?r = RObj kvs \<and> ''name'' \<notin> fst ` set kvs"
    by (rule t [THEN conjunct2, THEN conjunct1, THEN mp, OF conjI [OF e(2,5)]])
  then have p2: "''name'' \<notin> fst ` set [(''a'', RVal (JNum 1))]" by simp
  have p3: "projects False abcHeap ?r' (JRef 0)"
    by (rule t [THEN conjunct2, THEN conjunct2, THEN conjunct1, THEN mp, OF e(3)])
  have o: "fieldName ?f \<noteq> ''__proto__''" "\<not> hasOwnProperty abcHeap 0 (fieldName ?f)"
    using e(6) by simp_all
  have "\<exists>kvs. ?r1 = RObj kvs \<and> fieldName ?f \<in> fst ` set kvs \<and>
       map_of kvs (fieldName ?f) = Some (RVal (get_prop abcHeap 0 (fieldName ?f))) \<and>
       (fieldName ?f \<notin> set objectPrototype \<and> fieldName ?f \<notin> set arrayPrototype \<longrightarrow>
          map_of kvs (fieldName ?f) = Some (RVal JUndefined))"
    by (rule u [THEN conjunct2, THEN conjunct2, THEN conjunct2, THEN mp,
          OF conjI [OF e(4) conjI [OF s conjI [OF o]]]])
  then have p4: "get_prop abcHeap 0 ''toString'' = JFun ''Object.prototype.toString''"
    by simp
  let ?g = "FieldNode None ''name'' [] None"
  have e': "pickSelectionSet 1 abcHeap None [] [] ''data'' 0 [leaf ''a'', leaf ''name''] None =
             Some (Inr ?r')"
    by (simp add: hasOwnProperty_def abcHeap_def leaf_def collectFields_def fieldNodes_def
        shouldIncludeNode_def getFieldEntryKey_def get_prop_def array_items_def
        pickField.simps objectPrototype_def)
  have s': "selected (\<lambda>tc. doesFragmentConditionMatch None tc None) [] []
             [leaf ''a'', leaf ''name''] ?g"
    unfolding leaf_def
    by (rule selected_Cons) (rule selected_field, simp_all add: shouldIncludeNode_def)
  have o': "fieldName ?g \<noteq> ''__proto__''" "\<not> hasOwnProperty abcHeap 0 (fieldName ?g)"
    using e(5) by simp_all
  have n': "fieldName ?g \<notin> set objectPrototype \<and> fieldName ?g \<notin> set arrayPrototype"
    by (simp add: objectPrototype_def arrayPrototype_def)
  note w = C1_absent_field [where h = abcHeap and n = 1 and frags = "[]" and vs = "[]"
      and a = 0 and sels = "[leaf ''a'', leaf ''name'']" and schema = None
      and path = "''data''" and rt = None and ?r1.0 = ?r' and f = ?g]
  have "\<exists>kvs. ?r' = RObj kvs \<and> fieldName ?g \<in> fst ` set kvs \<and>
       map_of kvs (fieldName ?g) = Some (RVal (get_prop abcHeap 0 (fieldName ?g))) \<and>
       (fieldName ?g \<notin> set objectPrototype \<and> fieldName ?g \<notin> set arrayPrototype \<longrightarrow>
          map_of kvs (fieldName ?g) = Some (RVal JUndefined))"
    by (rule w [THEN conjunct2, THEN conjunct2, THEN conjunct2, THEN mp,
          OF conjI [OF e' conjI [OF s' conjI [OF o']]]])
  then obtain kvs where kvs: "?r' = RObj kvs"
    and i: "fieldName ?g \<notin> set objectPrototype \<and> fieldName ?g \<notin> set arrayPrototype \<longrightarrow>
          map_of kvs (fieldName ?g) = Some (RVal JUndefined)"
    by blast
  from i n' have "map_of kvs (fieldName ?g) = Some (RVal JUndefined)" by (rule mp)
  with kvs have p5: "map_of [(''a'', RVal (JNum 1)), (''name'', RVal JUndefined)] ''name'' =
     Some (RVal JUndefined)"
    by simp
  show ?thesis by (intro conjI) (fact e(1) p1 p2 e(3) p3 e(4) p4 e' p5)+
qed

section \<open>Runtime type inference\<close>

lemma pick_error_extends:
  "pickField n h schema frags vars fieldPath fieldNode fieldData = Some (Inl e) \<Longrightarrow>
     \<exists>q. e = UnableToInferObjectType (fieldPath @ q)"
  "pickSelectionSet n h schema frags vars path a sels rt = Some (Inl e) \<Longrightarrow>
     \<exists>q. q \<noteq> [] \<and> e = UnableToInferObjectType (path @ q)"
  "pickNodes n h schema frags vars path a fns acc = Some (Inl e) \<Longrightarrow>
     \<exists>q. q \<noteq> [] \<and> e = UnableToInferObjectType (path @ q)"
  "pickItems n h schema frags vars prefix fieldNode items i = Some (Inl e) \<Longrightarrow>
     \<exists>q. q \<noteq> [] \<and> e = UnableToInferObjectType (prefix @ q)"
proof (induction n h schema frags vars fieldPath fieldNode fieldData
         and n h schema frags vars path a sels rt
         and n h schema frags vars path a fns acc
         and n h schema frags vars prefix fieldNode items i
         rule: pickField_pickSelectionSet_pickNodes_pickItems.induct)
  case (1 n h schema frags vars fieldPath fieldNode fieldData)
  then show ?case
    by (fastforce simp: pickField.simps Let_def split: option.splits jsval.splits if_splits)
next
  case (2 h schema frags vars path a sels runtimeObject)
  then show ?case by simp
next
  case (3 n h schema frags vars path a sels runtimeObject)
  then show ?case by simp
next
  case (4 n h schema frags vars path a pickedData)
  then show ?case by simp
next
  case (5 n h schema frags vars path a fieldNode rest pickedData)
  let ?k = "fieldName fieldNode"
  let ?d = "get_prop h a ?k"
  let ?picked = "(case array_items h ?d of
           Some items \<Rightarrow>
             (case pickItems n h schema frags vars (path @ ''.'' @ ?k) fieldNode items 0 of
                None \<Rightarrow> None
              | Some (Inl e) \<Rightarrow> Some (Inl e)
              | Some (Inr vs) \<Rightarrow> Some (Inr (RArr vs)))
         | None \<Rightarrow> pickField n h schema frags vars (path @ ''.'' @ ?k) fieldNode ?d)"
  from "5.prems" consider
    (here) "?picked = Some (Inl e)"
  | (later) v where "?picked = Some (Inr v)"
      "pickNodes n h schema frags vars path a rest (AList.update ?k v pickedData) = Some (Inl e)"
    by (auto simp: Let_def split: option.splits sum.splits)
  then show ?case
  proof cases
    case here
    show ?thesis
    proof (cases "array_items h ?d")
      case None
      with here 5(1) [OF refl None] obtain q where "e = UnableToInferObjectType ((path @ ''.'' @ ?k) @ q)"
        by auto
      then show ?thesis by auto
    next
      case (Some items)
      with here have "pickItems n h schema frags vars (path @ ''.'' @ ?k) fieldNode items 0 = Some (Inl e)"
        by (auto split: option.splits sum.splits)
      with 5(2) [OF refl Some] obtain q where "e = UnableToInferObjectType ((path @ ''.'' @ ?k) @ q)"
        by auto
      then show ?thesis by auto
    qed
  next
    case later
    with 5(3) [OF refl refl later(1) refl] show ?thesis by simp
  qed
next
  case (6 n h schema frags vars prefix fieldNode i)
  then show ?case by simp
next
  case (7 n h schema frags vars prefix fieldNode x xs i)
  from "7.prems" consider
    (here) "pickField n h schema frags vars (prefix @ ''['' @ show_nat i @ '']'') fieldNode x = Some (Inl e)"
  | (later) v where "pickField n h schema frags vars (prefix @ ''['' @ show_nat i @ '']'') fieldNode x = Some (Inr v)"
      "pickItems n h schema frags vars prefix fieldNode xs (Suc i) = Some (Inl e)"
    by (auto split: option.splits sum.splits)
  then show ?case
  proof cases
    case here
    with 7(1) obtain q where "e = UnableToInferObjectType ((prefix @ ''['' @ show_nat i @ '']'') @ q)"
      by auto
    then show ?thesis by auto
  next
    case later
    with 7(2) [OF later(1) refl] show ?thesis by simp
  qed
qed

lemma pick_schemaless_no_error:
  "schema = None \<Longrightarrow>
     pickField n h schema frags vars fieldPath fieldNode fieldData \<noteq> Some (Inl e)"
  "schema = None \<Longrightarrow>
     pickSelectionSet n h schema frags vars path a sels rt \<noteq> Some (Inl e)"
  "schema = None \<Longrightarrow>
     pickNodes n h schema frags vars path a fns acc \<noteq> Some (Inl e)"
  "schema = None \<Longrightarrow>
     pickItems n h schema frags vars prefix fieldNode items i \<noteq> Some (Inl e)"
proof (induction n h schema frags vars fieldPath fieldNode fieldData
         and n h schema frags vars path a sels rt
         and n h schema frags vars path a fns acc
         and n h schema frags vars prefix fieldNode items i
         rule: pickField_pickSelectionSet_pickNodes_pickItems.induct)
  case (1 n h schema frags vars fieldPath fieldNode fieldData)
  then show ?case
    by (auto simp: pickField.simps Let_def split: option.splits jsval.splits)
next
  case (2 h schema frags vars path a sels runtimeObject)
  then show ?case by simp
next
  case (3 n h schema frags vars path a sels runtimeObject)
  then show ?case by simp
next
  case (4 n h schema frags vars path a pickedData)
  then show ?case by simp
next
  case (5 n h schema frags vars path a fieldNode rest pickedData)
  then show ?case
    by (auto simp: Let_def split: option.splits sum.splits)
next
  case (6 n h schema frags vars prefix fieldNode i)
  then show ?case by simp
next
  case (7 n h schema frags vars prefix fieldNode x xs i)
  then show ?case by (auto split: option.splits sum.splits)
qed


lemma pick_error_accessible:
  "pickField n h schema frags vars fieldPath fieldNode fieldData = Some (Inl e) \<Longrightarrow>
     accessible h root data fieldPath fieldData \<Longrightarrow> inferenceFailure h schema root data e"
  "pickSelectionSet n h schema frags vars path a sels rt = Some (Inl e) \<Longrightarrow>
     accessible h root data path (JRef a) \<Longrightarrow> inferenceFailure h schema root data e"
  "pickNodes n h schema frags vars path a fns acc = Some (Inl e) \<Longrightarrow>
     accessible h root data path (JRef a) \<Longrightarrow> inferenceFailure h schema root data e"
  "pickItems n h schema frags vars prefix fieldNode items i = Some (Inl e) \<Longrightarrow>
     (\<forall>j<length items.
        accessible h root data (prefix @ ''['' @ show_nat (i + j) @ '']'') (items ! j)) \<Longrightarrow>
     inferenceFailure h schema root data e"
proof (induction n h schema frags vars fieldPath fieldNode fieldData
         and n h schema frags vars path a sels rt
         and n h schema frags vars path a fns acc
         and n h schema frags vars prefix fieldNode items i
         rule: pickField_pickSelectionSet_pickNodes_pickItems.induct)
  case (1 n h schema frags vars fieldPath fieldNode fieldData)
  from "1.prems"(1) obtain sels b where
    s: "selectionSet fieldNode = Some sels" and d: "fieldData = JRef b"
    by (auto simp: pickField.simps split: option.splits jsval.splits)
  show ?case
  proof (cases "schema \<noteq> None \<and> runtimeObjectOf h schema b = None")
    case True
    with "1.prems" s d show ?thesis
      by (auto simp: pickField.simps inferenceFailure_def)
  next
    case False
    with "1.prems" s d 1(1) [OF s d refl] show ?thesis
      by (auto simp: pickField.simps Let_def)
  qed
next
  case (2 h schema frags vars path a sels runtimeObject)
  then show ?case by simp
next
  case (3 n h schema frags vars path a sels runtimeObject)
  then show ?case by simp
next
  case (4 n h schema frags vars path a pickedData)
  then show ?case by simp
next
  case (5 n h schema frags vars path a fieldNode rest pickedData)
  let ?k = "fieldName fieldNode"
  let ?d = "get_prop h a ?k"
  let ?picked = "(case array_items h ?d of
           Some items \<Rightarrow>
             (case pickItems n h schema frags vars (path @ ''.'' @ ?k) fieldNode items 0 of
                None \<Rightarrow> None
              | Some (Inl e) \<Rightarrow> Some (Inl e)
              | Some (Inr vs) \<Rightarrow> Some (Inr (RArr vs)))
         | None \<Rightarrow> pickField n h schema frags vars (path @ ''.'' @ ?k) fieldNode ?d)"
  have acc: "accessible h root data (path @ ''.'' @ ?k) ?d"
    using "5.prems"(2) by (rule accessible_property)
  from "5.prems"(1) consider
    (here) "?picked = Some (Inl e)"
  | (later) v where "?picked = Some (Inr v)"
      "pickNodes n h schema frags vars path a rest (AList.update ?k v pickedData) = Some (Inl e)"
    by (auto simp: Let_def split: option.splits sum.splits)
  then show ?case
  proof cases
    case here
    show ?thesis
    proof (cases "array_items h ?d")
      case None
      with here 5(1) [OF refl None _ acc] show ?thesis by simp
    next
      case (Some items)
      with here have e: "pickItems n h schema frags vars (path @ ''.'' @ ?k) fieldNode items 0 = Some (Inl e)"
        by (auto split: option.splits sum.splits)
      have "\<forall>j<length items.
              accessible h root data ((path @ ''.'' @ ?k) @ ''['' @ show_nat (0 + j) @ '']'') (items ! j)"
        using accessible_item [OF acc Some] by simp
      with 5(2) [OF refl Some e] show ?thesis by simp
    qed
  next
    case later
    with 5(3) [OF refl refl later(1) refl _ "5.prems"(2)] show ?thesis by simp
  qed
next
  case (6 n h schema frags vars prefix fieldNode i)
  then show ?case by simp
next
  case (7 n h schema frags vars prefix fieldNode x xs i)
  have hd: "accessible h root data (prefix @ ''['' @ show_nat i @ '']'') x"
    using "7.prems"(2) by force
  have tl: "\<forall>j<length xs.
              accessible h root data (prefix @ ''['' @ show_nat (Suc i + j) @ '']'') (xs ! j)"
  proof (intro allI impI)
    fix j assume "j < length xs"
    then have "Suc j < length (x # xs)" by simp
    with "7.prems"(2) have "accessible h root data
        (prefix @ ''['' @ show_nat (i + Suc j) @ '']'') ((x # xs) ! Suc j)"
      by blast
    then show "accessible h root data (prefix @ ''['' @ show_nat (Suc i + j) @ '']'') (xs ! j)"
      by simp
  qed
  from "7.prems"(1) consider
    (here) "pickField n h schema frags vars (prefix @ ''['' @ show_nat i @ '']'') fieldNode x = Some (Inl e)"
  | (later) v where "pickField n h schema frags vars (prefix @ ''['' @ show_nat i @ '']'') fieldNode x = Some (Inr v)"
      "pickItems n h schema frags vars prefix fieldNode xs (Suc i) = Some (Inl e)"
    by (auto split: option.splits sum.splits)
  then show ?case
  proof cases
    case here
    with 7(1) [OF _ hd] show ?thesis by simp
  next
    case later
    with 7(2) [OF later(1) refl _ tl] show ?thesis by simp
  qed
qed


lemma runtimeObjectOf_None_iff:
  "(runtimeObjectOf h (Some s) a = None) =
     (\<not> (\<exists>t. get_prop h a ''__typename'' = JStr t \<and> t \<in> set (typeNames s)))"
  by (auto simp: runtimeObjectOf_def getType_def split: jsval.splits)

lemma pickField_throws_iff:
  assumes "selectionSet fieldNode = Some sels"
  shows "(pickField n h (Some s) frags vars p fieldNode (JRef a) =
            Some (Inl (UnableToInferObjectType p))) =
         (runtimeObjectOf h (Some s) a = None)"
proof (cases "runtimeObjectOf h (Some s) a")
  case None
  with assms show ?thesis by (simp add: pickField.simps)
next
  case (Some t)
  have "pickSelectionSet n h (Some s) frags vars p a sels (Some t)
          \<noteq> Some (Inl (UnableToInferObjectType p))"
    using pick_error_extends(2) [of n h "Some s" frags vars p a sels "Some t"
        "UnableToInferObjectType p"]
    by auto
  with assms Some show ?thesis by (simp add: pickField.simps)
qed

text \<open>
  C3. With a schema, \<open>pickField\<close> on a field with a selection set and an object value
  throws "Unable to infer object type" with its own path exactly when the object has no
  \<open>__typename\<close> string that the schema resolves; a value that is no object (null,
  undefined, a scalar) is returned as it is; without a schema the error is never
  thrown; and the path in a thrown error is the dotted and indexed access path, from
  the root \<open>data\<close>, of an object whose runtime type the schema cannot infer.
\<close>

theorem C3_unable_to_infer:
  "(selectionSet fieldNode = Some sels \<longrightarrow>
      (pickField n h (Some s) frags vars p fieldNode (JRef a) =
         Some (Inl (UnableToInferObjectType p))) =
      (\<not> (\<exists>t. get_prop h a ''__typename'' = JStr t \<and> t \<in> set (typeNames s))))
   \<and> ((\<forall>b. v \<noteq> JRef b) \<longrightarrow>
        pickField n h schema frags vars p fieldNode v = Some (Inr (RVal v)))
   \<and> pickOperationFields fuel h data doc opName ovars None
        \<noteq> Some (Inl (UnableToInferObjectType q))
   \<and> (pickOperationFields fuel h data doc opName ovars schema =
         Some (Inl (UnableToInferObjectType q)) \<longrightarrow>
       (\<exists>b. accessible h ''data'' data q (JRef b) \<and> schema \<noteq> None \<and>
            runtimeObjectOf h schema b = None))"
proof (intro conjI impI)
  assume "selectionSet fieldNode = Some sels"
  then show "(pickField n h (Some s) frags vars p fieldNode (JRef a) =
         Some (Inl (UnableToInferObjectType p))) =
      (\<not> (\<exists>t. get_prop h a ''__typename'' = JStr t \<and> t \<in> set (typeNames s)))"
    by (simp only: pickField_throws_iff runtimeObjectOf_None_iff)
next
  assume "\<forall>b. v \<noteq> JRef b"
  then show "pickField n h schema frags vars p fieldNode v = Some (Inr (RVal v))"
    by (cases v) (auto simp: pickField.simps split: option.splits)
next
  show "pickOperationFields fuel h data doc opName ovars None
          \<noteq> Some (Inl (UnableToInferObjectType q))"
    using pick_schemaless_no_error(2) [OF refl]
    by (auto simp: pickOperationFields_def split: prod.splits option.splits if_splits)
next
  assume e: "pickOperationFields fuel h data doc opName ovars schema =
               Some (Inl (UnableToInferObjectType q))"
  then obtain frs vs and opDef :: OperationDefinitionNode where
    "pickSelectionSet fuel h schema frs vs
       ''data'' data (operationSelectionSet opDef) (getRootType schema (operation opDef)) =
     Some (Inl (UnableToInferObjectType q))"
    unfolding pickOperationFields_def
    by (auto split: prod.splits option.splits if_splits)
  from pick_error_accessible(2) [OF this accessible_root]
  show "\<exists>b. accessible h ''data'' data q (JRef b) \<and> schema \<noteq> None \<and>
            runtimeObjectOf h schema b = None"
    by (auto simp: inferenceFailure_def)
qed

theorem C3_unable_to_infer_witness:
  "pickOperationFields 4 businessHeap 0 businessDoc None (Some []) (Some accountSchema) =
     Some (Inl (UnableToInferObjectType ''data.business.employees[1].employer''))
   \<and> (\<exists>b. accessible businessHeap ''data'' 0 ''data.business.employees[1].employer'' (JRef b) \<and>
          runtimeObjectOf businessHeap (Some accountSchema) b = None)
   \<and> pickField 0 businessHeap (Some accountSchema) [] [] ''data.user''
        (FieldNode None ''user'' [] (Some [FIELD None ''id'' [] None])) JNull =
      Some (Inr (RVal JNull))"
proof -
  have e: "pickOperationFields 4 businessHeap 0 businessDoc None (Some []) (Some accountSchema) =
     Some (Inl (UnableToInferObjectType ''data.business.employees[1].employer''))"
    by (simp add: businessHeap_def businessDoc_def accountSchema_def pickOperationFields_def
      extractDefinitions_def operationKey_def anonymousOperationKey_def collectFields_def
      fieldNodes_def shouldIncludeNode_def getFieldEntryKey_def get_prop_def array_items_def
      getRootType_def getType_def runtimeObjectOf_def pickField.simps show_nat.simps
      doesFragmentConditionMatch_def eval_nat_numeral)
  show ?thesis
    using e C3_unable_to_infer [of "FieldNode None ''user'' [] (Some [FIELD None ''id'' [] None])"
        "[FIELD None ''id'' [] None]" 0 businessHeap accountSchema "[]" "[]" "''data.user''" 0
        JNull "Some accountSchema" 4 0 businessDoc None "Some []"
        "''data.business.employees[1].employer''"]
    by auto
qed

section \<open>Termination on cyclic payloads\<close>

lemma depth_Suc:
  "itemDepth k frags s = Some d \<Longrightarrow> itemDepth (Suc k) frags s = Some d"
  "itemsDepth k frags sels = Some d \<Longrightarrow> itemsDepth (Suc k) frags sels = Some d"
proof (induction k frags s and k frags sels arbitrary: d and d rule: itemDepth_itemsDepth.induct)
  case (5 k frags n ds)
  then show ?case by (cases k) (auto split: option.splits)
qed (auto split: option.splits)


lemma itemsDepth_member:
  "itemsDepth k frags sels = Some d \<Longrightarrow> s \<in> set sels \<Longrightarrow>
   \<exists>d'\<le>d. itemDepth k frags s = Some d'"
  by (induction sels arbitrary: d) (auto split: option.splits)

lemma spliced_depth:
  "spliced frags vars sels f \<Longrightarrow> itemsDepth k frags sels = Some d \<Longrightarrow>
   \<exists>d'\<le>d. nodeDepth k frags f = Some d'"
proof (induction arbitrary: k d rule: spliced.induct)
  case (spliced_field al n ds ss sels)
  from itemsDepth_member [OF spliced_field(3) spliced_field(1)]
  show ?case by (simp add: nodeDepth_def)
next
  case (spliced_inline tc ds sub sels f)
  from itemsDepth_member [OF spliced_inline(5) spliced_inline(1)]
  obtain d1 where d1: "d1 \<le> d" "itemsDepth k frags sub = Some d1" by auto
  from spliced_inline(4) [OF d1(2)] d1(1) show ?case by fastforce
next
  case (spliced_spread n ds sels fragment f)
  from itemsDepth_member [OF spliced_spread(6) spliced_spread(1)]
  obtain d1 where d1: "d1 \<le> d" "itemDepth k frags (FRAGMENT_SPREAD n ds) = Some d1" by auto
  then obtain k' where k: "k = Suc k'" by (cases k) auto
  with d1 spliced_spread(3) have "itemsDepth k' frags (fragmentSelectionSet fragment) = Some d1"
    by simp
  from spliced_spread(5) [OF this] obtain d' where "d' \<le> d1" "nodeDepth k' frags f = Some d'"
    by auto
  with k d1(1) show ?case
    using depth_Suc(1) [of k' frags _ d'] by (fastforce simp: nodeDepth_def)
qed

lemma pickField_returns:
  assumes ih: "\<And>sels path a rt d. itemsDepth k frags sels = Some d \<Longrightarrow> d < n \<Longrightarrow>
                 pickSelectionSet n h schema frags vars path a sels rt \<noteq> None"
    and d: "nodeDepth k frags f = Some d'" "d' \<le> n"
  shows "pickField n h schema frags vars p f v \<noteq> None"
proof (cases "selectionSet f")
  case None
  then show ?thesis by (simp add: pickField.simps)
next
  case (Some sels)
  with d obtain d'' where "itemsDepth k frags sels = Some d''" "d'' < n"
    by (auto simp: nodeDepth_def)
  from ih [OF this] Some show ?thesis
    by (auto simp: pickField.simps Let_def split: jsval.splits)
qed

lemma pickItems_returns:
  assumes "\<And>p v. pickField n h schema frags vars p f v \<noteq> None"
  shows "pickItems n h schema frags vars prefix f items i \<noteq> None"
proof (induction items arbitrary: i)
  case Nil
  then show ?case by simp
next
  case (Cons x xs)
  from assms [of "prefix @ ''['' @ show_nat i @ '']''" x] Cons.IH [of "Suc i"]
  show ?case by (auto split: option.splits sum.splits)
qed

lemma pickNodes_returns:
  assumes "\<And>f p v. f \<in> set fns \<Longrightarrow> pickField n h schema frags vars p f v \<noteq> None"
  shows "pickNodes n h schema frags vars path a fns acc \<noteq> None"
  using assms
proof (induction fns arbitrary: acc)
  case Nil
  then show ?case by simp
next
  case (Cons f fns)
  have f: "pickField n h schema frags vars p f v \<noteq> None" for p v
    using Cons.prems by simp
  have i: "pickItems n h schema frags vars prefix f items i \<noteq> None" for prefix items i
    using f by (rule pickItems_returns)
  have r: "pickNodes n h schema frags vars path a fns acc' \<noteq> None" for acc'
    using Cons.IH Cons.prems by simp
  show ?case
  proof (cases "array_items h (get_prop h a (fieldName f))")
    case None
    with f [of "path @ ''.'' @ fieldName f" "get_prop h a (fieldName f)"] r show ?thesis
      by (auto simp: Let_def split: option.splits sum.splits)
  next
    case (Some items)
    with i [of "path @ ''.'' @ fieldName f" items 0] r show ?thesis
      by (auto simp: Let_def split: option.splits sum.splits)
  qed
qed

lemma pickSelectionSet_returns:
  "itemsDepth k frags sels = Some d \<Longrightarrow> d < n \<Longrightarrow>
   pickSelectionSet n h schema frags vars path a sels rt \<noteq> None"
proof (induction n arbitrary: sels d path a rt)
  case 0
  then show ?case by simp
next
  case (Suc n)
  have "pickField n h schema frags vars p f v \<noteq> None"
    if "f \<in> set (fieldNodes (collectFields schema frags vars rt sels))" for f p v
  proof -
    from that have "spliced frags vars sels f" by (rule collectFields_sound)
    from spliced_depth [OF this Suc.prems(1)] obtain d' where
      "d' \<le> d" "nodeDepth k frags f = Some d'" by auto
    with Suc.prems(2) have "nodeDepth k frags f = Some d'" "d' \<le> n" by auto
    with Suc.IH show ?thesis by (intro pickField_returns [of k frags n h schema vars f d']) auto
  qed
  then show ?case by (simp add: pickNodes_returns)
qed

lemma pick_fuel_Suc:
  "pickField n h schema frags vars fieldPath fieldNode fieldData = Some r \<Longrightarrow>
     pickField (Suc n) h schema frags vars fieldPath fieldNode fieldData = Some r"
  "pickSelectionSet n h schema frags vars path a sels rt = Some r \<Longrightarrow>
     pickSelectionSet (Suc n) h schema frags vars path a sels rt = Some r"
  "pickNodes n h schema frags vars path a fns acc = Some r \<Longrightarrow>
     pickNodes (Suc n) h schema frags vars path a fns acc = Some r"
  "pickItems n h schema frags vars prefix fieldNode items i = Some rs \<Longrightarrow>
     pickItems (Suc n) h schema frags vars prefix fieldNode items i = Some rs"
proof (induction n h schema frags vars fieldPath fieldNode fieldData
         and n h schema frags vars path a sels rt
         and n h schema frags vars path a fns acc
         and n h schema frags vars prefix fieldNode items i
         arbitrary: r and r and r and rs
         rule: pickField_pickSelectionSet_pickNodes_pickItems.induct)
  case (1 n h schema frags vars fieldPath fieldNode fieldData)
  show ?case
  proof (cases "selectionSet fieldNode")
    case None
    with "1.prems" show ?thesis by (simp add: pickField.simps)
  next
    case (Some sels)
    show ?thesis
    proof (cases "\<exists>b. fieldData = JRef b")
      case False
      with "1.prems" Some show ?thesis
        by (cases fieldData) (auto simp: pickField.simps)
    next
      case True
      then obtain b where b: "fieldData = JRef b" by auto
      show ?thesis
      proof (cases "schema \<noteq> None \<and> runtimeObjectOf h schema b = None")
        case True
        with "1.prems" Some b show ?thesis by (simp add: pickField.simps)
      next
        case False
        with "1.prems" Some b have
          "pickSelectionSet n h schema frags vars fieldPath b sels (runtimeObjectOf h schema b) =
             Some r"
          by (auto simp: pickField.simps Let_def)
        from 1(1) [OF Some b refl False this] Some b False show ?thesis
          by (auto simp: pickField.simps Let_def simp del: pickSelectionSet.simps)
      qed
    qed
  qed
next
  case (2 h schema frags vars path a sels runtimeObject)
  then show ?case by simp
next
  case (3 n h schema frags vars path a sels runtimeObject)
  then show ?case by simp
next
  case (4 n h schema frags vars path a pickedData)
  then show ?case by simp
next
  case (5 n h schema frags vars path a fieldNode rest pickedData)
  let ?k = "fieldName fieldNode"
  let ?d = "get_prop h a ?k"
  show ?case
  proof (cases "array_items h ?d")
    case None
    with "5.prems" obtain x where
      x: "pickField n h schema frags vars (path @ ''.'' @ ?k) fieldNode ?d = Some x"
      by (auto simp: Let_def split: option.splits)
    note x' = 5(1) [OF refl None x]
    show ?thesis
    proof (cases x)
      case (Inl e)
      with "5.prems" None x x' show ?thesis by (auto simp: Let_def)
    next
      case (Inr v)
      with "5.prems" None x have
        "pickNodes n h schema frags vars path a rest (AList.update ?k v pickedData) = Some r"
        by (simp add: Let_def)
      from 5(3) [OF refl refl _ _ this] None x Inr have
        "pickNodes (Suc n) h schema frags vars path a rest (AList.update ?k v pickedData) = Some r"
        by simp
      with None x' Inr show ?thesis by (simp add: Let_def)
    qed
  next
    case (Some items)
    with "5.prems" obtain x where
      x: "pickItems n h schema frags vars (path @ ''.'' @ ?k) fieldNode items 0 = Some x"
      by (auto simp: Let_def split: option.splits)
    note x' = 5(2) [OF refl Some x]
    show ?thesis
    proof (cases x)
      case (Inl e)
      with "5.prems" Some x x' show ?thesis by (auto simp: Let_def)
    next
      case (Inr vs)
      with "5.prems" Some x have
        "pickNodes n h schema frags vars path a rest (AList.update ?k (RArr vs) pickedData) = Some r"
        by (simp add: Let_def)
      from 5(3) [OF refl refl _ _ this] Some x Inr have
        "pickNodes (Suc n) h schema frags vars path a rest (AList.update ?k (RArr vs) pickedData) = Some r"
        by simp
      with Some x' Inr show ?thesis by (simp add: Let_def)
    qed
  qed
next
  case (6 n h schema frags vars prefix fieldNode i)
  then show ?case by simp
next
  case (7 n h schema frags vars prefix fieldNode x xs i)
  from "7.prems" obtain y where
    y: "pickField n h schema frags vars (prefix @ ''['' @ show_nat i @ '']'') fieldNode x = Some y"
    by (auto split: option.splits)
  note y' = 7(1) [OF y]
  show ?case
  proof (cases y)
    case (Inl e)
    with "7.prems" y y' show ?thesis by auto
  next
    case (Inr v)
    with "7.prems" y obtain z where
      z: "pickItems n h schema frags vars prefix fieldNode xs (Suc i) = Some z"
      by (auto split: option.splits)
    from 7(2) [OF y Inr z] have
      "pickItems (Suc n) h schema frags vars prefix fieldNode xs (Suc i) = Some z" .
    with "7.prems" y y' Inr z show ?thesis by simp
  qed
qed

lemma pickSelectionSet_fuel_mono:
  "pickSelectionSet n h schema frags vars path a sels rt = Some r \<Longrightarrow> n \<le> m \<Longrightarrow>
   pickSelectionSet m h schema frags vars path a sels rt = Some r"
proof (induction m)
  case 0
  then show ?case by simp
next
  case (Suc m)
  show ?case
  proof (cases "n = Suc m")
    case True
    with Suc.prems show ?thesis by simp
  next
    case False
    with Suc.prems have "n \<le> m" by simp
    from pick_fuel_Suc(2) [OF Suc.IH [OF Suc.prems(1) this]] show ?thesis .
  qed
qed


lemma jackJill_reads:
  "get_prop jackJillHeap 0 ''user'' = JRef 1"
  "get_prop jackJillHeap 1 ''name'' = JStr ''Jack''"
  "get_prop jackJillHeap 1 ''siblings'' = JRef 3"
  "get_prop jackJillHeap 2 ''name'' = JStr ''Jill''"
  "get_prop jackJillHeap 2 ''siblings'' = JRef 4"
  "array_items jackJillHeap (JRef 1) = None"
  "array_items jackJillHeap (JRef 3) = Some [JRef 2]"
  "array_items jackJillHeap (JRef 4) = Some [JRef 1]"
  "array_items jackJillHeap (JStr s) = None"
  "get_prop jackJillHeap 0 ''user'' = JRef (Suc 0)"
  "get_prop jackJillHeap (Suc 0) ''name'' = JStr ''Jack''"
  "get_prop jackJillHeap (Suc 0) ''siblings'' = JRef 3"
  "array_items jackJillHeap (JRef (Suc 0)) = None"
  "array_items jackJillHeap (JRef 4) = Some [JRef (Suc 0)]"
  "runtimeObjectOf jackJillHeap None 1 = None"
  "runtimeObjectOf jackJillHeap None 2 = None"
  "runtimeObjectOf jackJillHeap None (Suc 0) = None"
  by (simp_all add: jackJillHeap_def get_prop_def array_items_def runtimeObjectOf_def
      getType_def specifiedTypeNames_def)

lemma siblings_never_return:
  "a = 1 \<or> a = 2 \<Longrightarrow>
   pickSelectionSet n jackJillHeap None [(''Siblings'', siblingsFragment)] [] path a
     [FRAGMENT_SPREAD ''Siblings'' []] None = None"
proof (induction n arbitrary: a path)
  case 0
  then show ?case by simp
next
  case (Suc n)
  have c: "fieldNodes (collectFields None [(''Siblings'', siblingsFragment)] [] None
             [FRAGMENT_SPREAD ''Siblings'' []]) =
           [FieldNode None ''name'' [] None,
            FieldNode None ''siblings'' [] (Some [FRAGMENT_SPREAD ''Siblings'' []])]"
    by (simp add: collectFields_def fieldNodes_def siblingsFragment_def shouldIncludeNode_def
        doesFragmentConditionMatch_def getFieldEntryKey_def getType_def specifiedTypeNames_def)
  note r = jackJill_reads(15-17)
  have ih: "pickSelectionSet n jackJillHeap None [(''Siblings'', siblingsFragment)] [] p b
              [FRAGMENT_SPREAD ''Siblings'' []] None = None"
    if "b = 1 \<or> b = 2" for p b
    using that by (rule Suc.IH)
  from Suc.prems show ?case
  proof
    assume a: "a = 1"
    show ?thesis
      unfolding pickSelectionSet.simps(2) c a
      by (simp add: jackJill_reads Let_def pickField.simps r ih)
  next
    assume a: "a = 2"
    show ?thesis
      unfolding pickSelectionSet.simps(2) c a
      by (simp add: jackJill_reads Let_def pickField.simps r ih)
  qed
qed

text \<open>
  C2 fails when a fragment spreads itself below a field: on the cyclic pair of Jack and
  Jill no call depth is enough for \<open>query { user { ...Siblings } }\<close> with
  \<open>fragment Siblings on User { name siblings { ...Siblings } }\<close>.
\<close>

theorem C2_terminates_counterexample:
  "\<forall>fuel. pickOperationFields fuel jackJillHeap 0 recursiveQuery None None None = None"
proof
  fix fuel
  have e: "extractDefinitions recursiveQuery =
             ([(''Siblings'', siblingsFragment)],
              [(''__anonymous_operation'',
                \<lparr>operation = QUERY, operationName = None,
                 operationSelectionSet =
                   [FIELD None ''user'' [] (Some [FRAGMENT_SPREAD ''Siblings'' []])]\<rparr>)])"
    by (simp add: extractDefinitions_def recursiveQuery_def operationKey_def
        anonymousOperationKey_def siblingsFragment_def)
  have c: "fieldNodes (collectFields None [(''Siblings'', siblingsFragment)] [] None
             [FIELD None ''user'' [] (Some [FRAGMENT_SPREAD ''Siblings'' []])]) =
           [FieldNode None ''user'' [] (Some [FRAGMENT_SPREAD ''Siblings'' []])]"
    by (simp add: collectFields_def fieldNodes_def shouldIncludeNode_def getFieldEntryKey_def)
  note r = jackJill_reads(15-17)
  show "pickOperationFields fuel jackJillHeap 0 recursiveQuery None None None = None"
  proof (cases fuel)
    case 0
    then show ?thesis
      by (simp add: pickOperationFields_def e operationKey_def anonymousOperationKey_def)
  next
    case (Suc n)
    then show ?thesis
      by (simp add: pickOperationFields_def e operationKey_def anonymousOperationKey_def
          getRootType_def c jackJill_reads Let_def pickField.simps r siblings_never_return)
  qed
qed

text \<open>
  C2, amended. When the selection set of the operation, fragments spliced in, has a
  finite static depth \<open>d\<close> (no fragment spreads itself), \<open>pickOperationFields\<close> returns
  for every payload store, cyclic or not, within call depth \<open>d\<close>, and more fuel does
  not change what it returns.
\<close>

theorem C2_terminates:
  assumes "operationDepth k doc opName = Some d" and "d \<le> fuel"
  shows "(\<exists>res. pickOperationFields d h data doc opName vars schema = Some res)
    \<and> pickOperationFields fuel h data doc opName vars schema =
      pickOperationFields d h data doc opName vars schema"
proof -
  obtain frs ops where e: "extractDefinitions doc = (frs, ops)"
    by (cases "extractDefinitions doc")
  show ?thesis
  proof (cases "map_of ops (operationKey opName)")
    case None
    with e show ?thesis by (simp add: pickOperationFields_def)
  next
    case (Some opDef)
    let ?vs = "case vars of None \<Rightarrow> [] | Some vs \<Rightarrow> vs"
    from assms(1) e Some obtain d0 where
      d0: "itemsDepth k frs (operationSelectionSet opDef) = Some d0" "d = Suc d0"
      by (auto simp: operationDepth_def staticDepth_def)
    from pickSelectionSet_returns [OF d0(1), of d h schema ?vs "''data''" data
        "getRootType schema (operation opDef)"] d0(2)
    obtain res where
      res: "pickSelectionSet d h schema frs ?vs ''data'' data (operationSelectionSet opDef)
              (getRootType schema (operation opDef)) = Some res"
      by auto
    from pickSelectionSet_fuel_mono [OF res assms(2)] res e Some show ?thesis
      by (simp add: pickOperationFields_def)
  qed
qed

theorem C2_terminates_witness:
  "operationDepth 0 jackJillQuery None = Some 3
   \<and> pickOperationFields 3 jackJillHeap 0 jackJillQuery None None None =
     Some (Inr (RObj [(''user'',
       RObj [(''name'', RVal (JStr ''Jack'')),
             (''siblings'', RArr [RObj [(''name'', RVal (JStr ''Jill''))]]),
             (''eldestSibling'', RObj [(''age'', RVal (JNum 10))])])]))
   \<and> pickOperationFields 100 jackJillHeap 0 jackJillQuery None None None =
     pickOperationFields 3 jackJillHeap 0 jackJillQuery None None None"
proof -
  have d: "operationDepth 0 jackJillQuery None = Some 3"
    by (simp add: operationDepth_def staticDepth_def jackJillQuery_def extractDefinitions_def
        operationKey_def anonymousOperationKey_def)
  have e: "pickOperationFields 3 jackJillHeap 0 jackJillQuery None None None =
     Some (Inr (RObj [(''user'',
       RObj [(''name'', RVal (JStr ''Jack'')),
             (''siblings'', RArr [RObj [(''name'', RVal (JStr ''Jill''))]]),
             (''eldestSibling'', RObj [(''age'', RVal (JNum 10))])])]))"
    by (simp add: pickOperationFields_def jackJillHeap_def jackJillQuery_def
        extractDefinitions_def operationKey_def anonymousOperationKey_def collectFields_def
        fieldNodes_def getRootType_def getType_def runtimeObjectOf_def get_prop_def
        array_items_def shouldIncludeNode_def getFieldEntryKey_def pickField.simps
        eval_nat_numeral)
  from C2_terminates [OF d, of 100 jackJillHeap 0 None None] d e show ?thesis by simp
qed




section \<open>The projection leaves the payload as it is and is deterministic\<close>

declare pickField_store.simps [simp del]

lemma reads_stable:
  "reads h b lo hi v r \<Longrightarrow> (\<And>a. lo \<le> a \<Longrightarrow> a < hi \<Longrightarrow> h' a = h a) \<Longrightarrow>
     reads h' b lo hi v r"
  "readsFields h b lo hi kvs krs \<Longrightarrow> (\<And>a. lo \<le> a \<Longrightarrow> a < hi \<Longrightarrow> h' a = h a) \<Longrightarrow>
     readsFields h' b lo hi kvs krs"
  "readsItems h b lo hi vs rs \<Longrightarrow> (\<And>a. lo \<le> a \<Longrightarrow> a < hi \<Longrightarrow> h' a = h a) \<Longrightarrow>
     readsItems h' b lo hi vs rs"
  by (induction h b lo hi v r and h b lo hi kvs krs and h b lo hi vs rs
      rule: reads_readsFields_readsItems.induct)
     (auto split: jsval.splits option.splits hobj.splits list.splits)

lemma reads_widen:
  "reads h b lo hi v r \<Longrightarrow> lo' \<le> lo \<Longrightarrow> hi \<le> hi' \<Longrightarrow> reads h b lo' hi' v r"
  "readsFields h b lo hi kvs krs \<Longrightarrow> lo' \<le> lo \<Longrightarrow> hi \<le> hi' \<Longrightarrow>
     readsFields h b lo' hi' kvs krs"
  "readsItems h b lo hi vs rs \<Longrightarrow> lo' \<le> lo \<Longrightarrow> hi \<le> hi' \<Longrightarrow>
     readsItems h b lo' hi' vs rs"
  by (induction h b lo hi v r and h b lo hi kvs krs and h b lo hi vs rs
      rule: reads_readsFields_readsItems.induct)
     (auto split: jsval.splits option.splits hobj.splits list.splits)

lemma readsFields_update:
  "readsFields h b lo hi kvs krs \<Longrightarrow> reads h b lo hi v r \<Longrightarrow>
   readsFields h b lo hi (AList.update k v kvs) (AList.update k r krs)"
  by (induction krs arbitrary: kvs) (auto split: list.splits)

lemma frame_refl: "frame s s"
  by (simp add: frame_def)

lemma frame_trans: "frame s s1 \<Longrightarrow> frame s1 s2 \<Longrightarrow> frame s s2"
  by (auto simp: frame_def)

lemma frame_alloc: "frame s (snd (alloc s ob))"
  by (simp add: frame_def alloc_def)

lemma frameExcept_refl: "frameExcept p s s"
  by (simp add: frameExcept_def)

lemma frameExcept_trans: "frameExcept p s s1 \<Longrightarrow> frameExcept p s1 s2 \<Longrightarrow> frameExcept p s s2"
  by (auto simp: frameExcept_def)

lemma frame_frameExcept: "frame s s' \<Longrightarrow> frameExcept p s s'"
  by (simp add: frame_def frameExcept_def)

lemma frameExcept_setProperty: "frameExcept p s (setProperty s p k v)"
  by (auto simp: frameExcept_def setProperty_def split: option.splits hobj.splits)

lemma frameExcept_fresh:
  "frame s s1 \<Longrightarrow> frameExcept p s1 s' \<Longrightarrow> nextRef s \<le> p \<Longrightarrow> frame s s'"
  by (auto simp: frame_def frameExcept_def)

lemma pick_store_frame:
  "pickField_store n s schema frags vars fieldPath fieldNode fieldData = Some (res, s') \<Longrightarrow>
     frame s s'"
  "pickSelectionSet_store n s schema frags vars path a sels rt = Some (res, s') \<Longrightarrow>
     frame s s'"
  "pickNodes_store n s schema frags vars path a fns p = Some (res, s') \<Longrightarrow>
     frameExcept p s s'"
  "pickItems_store n s schema frags vars prefix fieldNode items i = Some (ress, s') \<Longrightarrow>
     frame s s'"
proof (induction n s schema frags vars fieldPath fieldNode fieldData
         and n s schema frags vars path a sels rt
         and n s schema frags vars path a fns p
         and n s schema frags vars prefix fieldNode items i
         arbitrary: res s' and res s' and res s' and ress s'
         rule: pickField_store_pickSelectionSet_store_pickNodes_store_pickItems_store.induct)
  case (1 n s schema frags vars fieldPath fieldNode fieldData)
  then show ?case
    by (auto simp: pickField_store.simps Let_def frame_refl
        split: option.splits jsval.splits if_splits)
next
  case (2 s schema frags vars path a sels runtimeObject)
  then show ?case by simp
next
  case (3 n s schema frags vars path a sels runtimeObject)
  from 3(1) [OF "3.prems" [simplified]]
  have "frameExcept (nextRef s) (snd (alloc s (HObj []))) s'" by (simp add: alloc_def)
  with frame_alloc show ?case by (rule frameExcept_fresh) simp
next
  case (4 n s schema frags vars path a pickedData)
  then show ?case by (auto simp: frameExcept_refl)
next
  case (5 n s schema frags vars path a fieldNode rest pickedData)
  let ?k = "fieldName fieldNode"
  let ?d = "get_prop (cells s) a ?k"
  let ?picked = "(case array_items (cells s) ?d of
         Some items \<Rightarrow>
           (case pickItems_store n s schema frags vars (path @ ''.'' @ ?k) fieldNode items 0 of
              None \<Rightarrow> None
            | Some (Inl e, s1) \<Rightarrow> Some (Inl e, s1)
            | Some (Inr vs, s1) \<Rightarrow>
                Some (Inr (JRef (fst (alloc s1 (HArr vs)))), snd (alloc s1 (HArr vs))))
       | None \<Rightarrow> pickField_store n s schema frags vars (path @ ''.'' @ ?k) fieldNode ?d)"
  from "5.prems" obtain x s1 where picked: "?picked = Some (x, s1)"
    by (auto simp: Let_def split: option.splits)
  have f1: "frame s s1"
  proof (cases "array_items (cells s) ?d")
    case None
    with picked 5(1) [OF refl None] show ?thesis by simp
  next
    case (Some items)
    with picked obtain y s0 where
      y: "pickItems_store n s schema frags vars (path @ ''.'' @ ?k) fieldNode items 0 = Some (y, s0)"
      by (auto split: option.splits)
    from 5(2) [OF refl Some y] have f0: "frame s s0" .
    show ?thesis
    proof (cases y)
      case (Inl e)
      with picked Some y f0 show ?thesis by simp
    next
      case (Inr vs)
      with picked Some y have "s1 = snd (alloc s0 (HArr vs))" by simp
      with f0 frame_alloc [of s0 "HArr vs"] show ?thesis by (auto intro: frame_trans)
    qed
  qed
  show ?case
  proof (cases x)
    case (Inl e)
    with "5.prems" picked f1 show ?thesis by (auto simp: Let_def intro: frame_frameExcept)
  next
    case (Inr v)
    with "5.prems" picked have r:
      "pickNodes_store n (setProperty s1 pickedData ?k v) schema frags vars path a rest pickedData
         = Some (res, s')"
      by (simp add: Let_def)
    from 5(3) [OF refl refl picked refl Inr r]
    have "frameExcept pickedData (setProperty s1 pickedData ?k v) s'" .
    with frameExcept_setProperty [of pickedData s1 ?k v]
    have "frameExcept pickedData s1 s'" by (rule frameExcept_trans)
    with frame_frameExcept [OF f1, of pickedData] show ?thesis by (rule frameExcept_trans)
  qed
next
  case (6 n s schema frags vars prefix fieldNode i)
  then show ?case by (auto simp: frame_refl)
next
  case (7 n s schema frags vars prefix fieldNode x xs i)
  from "7.prems" obtain y s1 where
    y: "pickField_store n s schema frags vars (prefix @ ''['' @ show_nat i @ '']'') fieldNode x
          = Some (y, s1)"
    by (auto split: option.splits)
  from 7(1) [OF y] have f1: "frame s s1" .
  show ?case
  proof (cases y)
    case (Inl e)
    with "7.prems" y f1 show ?thesis by auto
  next
    case (Inr v)
    with "7.prems" y obtain z s2 where
      z: "pickItems_store n s1 schema frags vars prefix fieldNode xs (Suc i) = Some (z, s2)"
      by (auto split: option.splits)
    from 7(2) [OF y refl Inr z] have f2: "frame s1 s2" .
    from "7.prems" y Inr z have "s' = s2" by (auto split: sum.splits)
    with f1 f2 show ?thesis by (auto intro: frame_trans)
  qed
qed

lemma own_property_refs:
  "own_property ob k = Some v \<Longrightarrow> v \<in> set (refsOf ob) \<or> (\<exists>n. v = JNum n)"
proof (cases ob)
  case (HObj kvs)
  assume "own_property ob k = Some v"
  with HObj have "(k, v) \<in> set kvs" by (auto dest: map_of_SomeD)
  then have "v \<in> snd ` set kvs" by force
  with HObj show ?thesis by simp
next
  case (HArr xs)
  assume a: "own_property ob k = Some v"
  show ?thesis
  proof (cases "k = ''length''")
    case True
    with a HArr show ?thesis by auto
  next
    case False
    with a HArr have "map_of (zip (map show_nat [0..<length xs]) xs) k = Some v" by simp
    then have "(k, v) \<in> set (zip (map show_nat [0..<length xs]) xs)" by (rule map_of_SomeD)
    then have "v \<in> set xs" by (rule set_zip_rightD)
    with HArr show ?thesis by simp
  qed
qed

lemma closed_get_prop:
  assumes "closedBelow h b"
  shows "validValue b (get_prop h a k)"
proof (cases "h a")
  case None
  then show ?thesis by (simp add: get_prop_def validValue_def)
next
  case (Some ob)
  show ?thesis
  proof (cases "own_property ob k")
    case None
    have "\<not> (\<exists>p. (case inherited ob k of None \<Rightarrow> JUndefined | Some v \<Rightarrow> v) = JRef p)"
      by (cases ob) auto
    with Some None show ?thesis
      by (auto simp: get_prop_def validValue_def split: jsval.splits)
  next
    case v: (Some v)
    from own_property_refs [OF v] show ?thesis
    proof
      assume "v \<in> set (refsOf ob)"
      moreover from assms Some have "list_all (validValue b) (refsOf ob)"
        by (simp add: closedBelow_def)
      ultimately have "validValue b v" by (simp add: list_all_iff)
      with Some v show ?thesis by (simp add: get_prop_def)
    next
      assume "\<exists>n. v = JNum n"
      with Some v show ?thesis by (auto simp: get_prop_def validValue_def)
    qed
  qed
qed

lemma closed_array_items:
  assumes "closedBelow h b" and "array_items h v = Some items"
  shows "list_all (validValue b) items"
proof -
  from assms(2) obtain p where "v = JRef p" "h p = Some (HArr items)"
    by (auto simp: array_items_def split: jsval.splits option.splits hobj.splits)
  with assms(1) have "list_all (validValue b) (refsOf (HArr items))"
    unfolding closedBelow_def by blast
  then show ?thesis by simp
qed

lemma agrees_get_prop: "agrees b s h0 \<Longrightarrow> a < b \<Longrightarrow> get_prop (cells s) a k = get_prop h0 a k"
  by (simp add: agrees_def get_prop_def)

lemma agrees_array_items:
  "agrees b s h0 \<Longrightarrow> validValue b v \<Longrightarrow> array_items (cells s) v = array_items h0 v"
  by (auto simp: agrees_def array_items_def validValue_def split: jsval.splits)

lemma agrees_runtimeObjectOf:
  "agrees b s h0 \<Longrightarrow> a < b \<Longrightarrow> runtimeObjectOf (cells s) schema a = runtimeObjectOf h0 schema a"
  by (simp add: runtimeObjectOf_def agrees_get_prop)

lemma agrees_frame: "agrees b s h0 \<Longrightarrow> frame s s' \<Longrightarrow> agrees b s' h0"
  by (auto simp: agrees_def frame_def)

lemma reads_frame:
  assumes "reads (cells s) b lo (nextRef s) v r" and "frame s s'"
  shows "reads (cells s') b lo (nextRef s') v r"
proof -
  have *: "reads (cells s') b lo (nextRef s) v r"
    by (rule reads_stable(1) [OF assms(1)]) (use assms(2) in \<open>auto simp: frame_def\<close>)
  show ?thesis by (rule reads_widen(1) [OF *]) (use assms(2) in \<open>auto simp: frame_def\<close>)
qed

lemma readsItems_frame:
  assumes "readsItems (cells s) b lo (nextRef s) vs rs" and "frame s s'"
  shows "readsItems (cells s') b lo (nextRef s') vs rs"
proof -
  have *: "readsItems (cells s') b lo (nextRef s) vs rs"
    by (rule reads_stable(3) [OF assms(1)]) (use assms(2) in \<open>auto simp: frame_def\<close>)
  show ?thesis by (rule reads_widen(3) [OF *]) (use assms(2) in \<open>auto simp: frame_def\<close>)
qed

lemma readsFields_frame:
  assumes "readsFields (cells s) b lo (nextRef s) kvs krs" and "frame s s'"
  shows "readsFields (cells s') b lo (nextRef s') kvs krs"
proof -
  have *: "readsFields (cells s') b lo (nextRef s) kvs krs"
    by (rule reads_stable(2) [OF assms(1)]) (use assms(2) in \<open>auto simp: frame_def\<close>)
  show ?thesis by (rule reads_widen(2) [OF *]) (use assms(2) in \<open>auto simp: frame_def\<close>)
qed

lemma agrees_setProperty:
  "agrees b s h0 \<Longrightarrow> b \<le> p \<Longrightarrow> agrees b (setProperty s p k v) h0"
  by (auto simp: agrees_def setProperty_def split: option.splits hobj.splits)

lemma agrees_alloc: "agrees b s h0 \<Longrightarrow> agrees b (snd (alloc s ob)) h0"
  by (auto simp: agrees_def alloc_def)

lemma nextRef_setProperty [simp]: "nextRef (setProperty s p k v) = nextRef s"
  by (simp add: setProperty_def split: option.splits hobj.splits)

lemma cells_setProperty:
  "cells s p = Some (HObj kvs) \<Longrightarrow>
   cells (setProperty s p k v) = (cells s)(p \<mapsto> HObj (AList.update k v kvs))"
  by (simp add: setProperty_def)

lemma frame_nextRef: "frame s s' \<Longrightarrow> nextRef s \<le> nextRef s'"
  by (simp add: frame_def)

lemma frame_cells: "frame s s' \<Longrightarrow> a < nextRef s \<Longrightarrow> cells s' a = cells s a"
  by (simp add: frame_def)

lemma reads_alloc_array:
  assumes "readsItems (cells s0) b lo (nextRef s0) vs rs" and "lo \<le> nextRef s0"
  shows "reads (cells (snd (alloc s0 (HArr vs)))) b lo (nextRef (snd (alloc s0 (HArr vs))))
           (JRef (fst (alloc s0 (HArr vs)))) (RArr rs)"
proof -
  let ?s = "snd (alloc s0 (HArr vs))"
  have "readsItems (cells ?s) b lo (nextRef ?s) vs rs"
    using assms(1) frame_alloc by (rule readsItems_frame)
  with assms(2) show ?thesis by (simp add: alloc_def)
qed

lemma readsFields_setProperty:
  assumes kvs: "cells s1 p = Some (HObj kvs)"
    and fields: "readsFields (cells s1) b (Suc p) (nextRef s1) kvs acc"
    and v: "reads (cells s1) b lo (nextRef s1) v r" and lo: "Suc p \<le> lo"
  shows "readsFields (cells (setProperty s1 p k v)) b (Suc p) (nextRef (setProperty s1 p k v))
           (AList.update k v kvs) (AList.update k r acc)"
proof -
  let ?s = "setProperty s1 p k v"
  have eq: "\<And>a. Suc p \<le> a \<Longrightarrow> a < nextRef s1 \<Longrightarrow> cells ?s a = cells s1 a"
    by (simp add: cells_setProperty [OF kvs])
  have f: "readsFields (cells ?s) b (Suc p) (nextRef s1) kvs acc"
    using fields eq by (rule reads_stable(2))
  have "reads (cells s1) b (Suc p) (nextRef s1) v r"
    by (rule reads_widen(1) [OF v lo order_refl])
  then have "reads (cells ?s) b (Suc p) (nextRef s1) v r"
    using eq by (rule reads_stable(1))
  with f show ?thesis by (simp add: readsFields_update)
qed

lemma pick_store_simulates:
  assumes closed: "closedBelow h0 b"
  shows
  "agrees b s h0 \<Longrightarrow> validValue b fieldData \<Longrightarrow>
     simulates b (nextRef s) (pickField_store n s schema frags vars fieldPath fieldNode fieldData)
       (pickField n h0 schema frags vars fieldPath fieldNode fieldData)"
  "agrees b s h0 \<Longrightarrow> a < b \<Longrightarrow>
     simulates b (nextRef s) (pickSelectionSet_store n s schema frags vars path a sels rt)
       (pickSelectionSet n h0 schema frags vars path a sels rt)"
  "agrees b s h0 \<Longrightarrow> a < b \<Longrightarrow> b \<le> p \<Longrightarrow> p < nextRef s \<Longrightarrow>
   cells s p = Some (HObj kvs) \<Longrightarrow> readsFields (cells s) b (Suc p) (nextRef s) kvs acc \<Longrightarrow>
     simulates b p (pickNodes_store n s schema frags vars path a fns p)
       (pickNodes n h0 schema frags vars path a fns acc)"
  "agrees b s h0 \<Longrightarrow> list_all (validValue b) items \<Longrightarrow>
     simulatesItems b (nextRef s)
       (pickItems_store n s schema frags vars prefix fieldNode items i)
       (pickItems n h0 schema frags vars prefix fieldNode items i)"
proof (induction n s schema frags vars fieldPath fieldNode fieldData
         and n s schema frags vars path a sels rt
         and n s schema frags vars path a fns p
         and n s schema frags vars prefix fieldNode items i
         arbitrary: and and kvs acc and
         rule: pickField_store_pickSelectionSet_store_pickNodes_store_pickItems_store.induct)
  case (1 n s schema frags vars fieldPath fieldNode fieldData)
  show ?case
  proof (cases "selectionSet fieldNode")
    case None
    with "1.prems" show ?thesis
      by (simp add: pickField_store.simps pickField.simps simulates_def)
  next
    case (Some sels)
    show ?thesis
    proof (cases "\<exists>a. fieldData = JRef a")
      case False
      with Some "1.prems" show ?thesis
        by (cases fieldData)
           (simp_all add: pickField_store.simps pickField.simps simulates_def)
    next
      case True
      then obtain a where a: "fieldData = JRef a" by blast
      with "1.prems" have ab: "a < b" by (simp add: validValue_def)
      have rt: "runtimeObjectOf (cells s) schema a = runtimeObjectOf h0 schema a"
        using "1.prems"(1) ab by (rule agrees_runtimeObjectOf)
      show ?thesis
      proof (cases "schema \<noteq> None \<and> runtimeObjectOf h0 schema a = None")
        case True
        with Some a rt show ?thesis
          by (simp add: pickField_store.simps pickField.simps simulates_def)
      next
        case False
        with rt have nf: "\<not> (schema \<noteq> None \<and> runtimeObjectOf (cells s) schema a = None)" by simp
        from 1(1) [OF Some a refl nf "1.prems"(1) ab]
        have "simulates b (nextRef s)
                (pickSelectionSet_store n s schema frags vars fieldPath a sels
                   (runtimeObjectOf (cells s) schema a))
                (pickSelectionSet n h0 schema frags vars fieldPath a sels
                   (runtimeObjectOf (cells s) schema a))" .
        with Some a rt False show ?thesis
          by (auto simp: pickField_store.simps pickField.simps Let_def)
      qed
    qed
  qed
next
  case (2 s schema frags vars path a sels runtimeObject)
  show ?case by (simp add: simulates_def)
next
  case (3 n s schema frags vars path a sels runtimeObject)
  let ?s = "snd (alloc s (HObj []))"
  let ?p = "fst (alloc s (HObj []))"
  have p: "?p = nextRef s" by (simp add: alloc_def)
  have ag: "agrees b ?s h0" using "3.prems"(1) by (rule agrees_alloc)
  have bp: "b \<le> ?p" using "3.prems"(1) by (simp add: agrees_def alloc_def)
  have lt: "?p < nextRef ?s" by (simp add: alloc_def)
  have c: "cells ?s ?p = Some (HObj [])" by (simp add: alloc_def)
  have r: "readsFields (cells ?s) b (Suc ?p) (nextRef ?s) [] []" by simp
  from 3(1) [OF ag "3.prems"(2) bp lt c r] p show ?case by simp
next
  case (4 n s schema frags vars path a pickedData)
  then show ?case
    by (auto simp: simulates_def intro: reads_widen(2))
next
  case (5 n s schema frags vars path a fieldNode rest pickedData)
  note ag = "5.prems"(1) and ab = "5.prems"(2) and bp = "5.prems"(3) and plt = "5.prems"(4)
    and c = "5.prems"(5) and rf = "5.prems"(6)
  let ?k = "fieldName fieldNode"
  let ?P = "path @ ''.'' @ ?k"
  let ?d = "get_prop (cells s) a ?k"
  let ?pickedS = "(case array_items (cells s) ?d of
         Some items \<Rightarrow>
           (case pickItems_store n s schema frags vars ?P fieldNode items 0 of
              None \<Rightarrow> None
            | Some (Inl e, s1) \<Rightarrow> Some (Inl e, s1)
            | Some (Inr vs, s1) \<Rightarrow>
                Some (Inr (JRef (fst (alloc s1 (HArr vs)))), snd (alloc s1 (HArr vs))))
       | None \<Rightarrow> pickField_store n s schema frags vars ?P fieldNode ?d)"
  let ?pickedV = "(case array_items h0 (get_prop h0 a ?k) of
         Some items \<Rightarrow>
           (case pickItems n h0 schema frags vars ?P fieldNode items 0 of
              None \<Rightarrow> None
            | Some (Inl e) \<Rightarrow> Some (Inl e)
            | Some (Inr vs) \<Rightarrow> Some (Inr (RArr vs)))
       | None \<Rightarrow> pickField n h0 schema frags vars ?P fieldNode (get_prop h0 a ?k))"
  have d: "?d = get_prop h0 a ?k" using ag ab by (rule agrees_get_prop)
  have vd: "validValue b ?d" unfolding d using closed by (rule closed_get_prop)
  have ai: "array_items (cells s) ?d = array_items h0 ?d" using ag vd by (rule agrees_array_items)
  have lhs: "pickNodes_store n s schema frags vars path a (fieldNode # rest) pickedData =
      (case ?pickedS of
         None \<Rightarrow> None
       | Some (Inl e, s1) \<Rightarrow> Some (Inl e, s1)
       | Some (Inr v, s1) \<Rightarrow>
           pickNodes_store n (setProperty s1 pickedData ?k v) schema frags vars path a rest
             pickedData)"
    by (simp add: Let_def)
  have rhs: "pickNodes n h0 schema frags vars path a (fieldNode # rest) acc =
      (case ?pickedV of
         None \<Rightarrow> None
       | Some (Inl e) \<Rightarrow> Some (Inl e)
       | Some (Inr v) \<Rightarrow>
           pickNodes n h0 schema frags vars path a rest (AList.update ?k v acc))"
    by (simp add: Let_def)
  have sim: "simulates b (nextRef s) ?pickedS ?pickedV"
    and fr: "\<And>x s1. ?pickedS = Some (x, s1) \<Longrightarrow> frame s s1"
  proof -
    show "simulates b (nextRef s) ?pickedS ?pickedV"
    proof (cases "array_items (cells s) ?d")
      case None
      from 5(1) [OF refl None ag vd] None ai d show ?thesis by simp
    next
      case (Some items)
      with ai d have hv: "array_items h0 (get_prop h0 a ?k) = Some items" by simp
      with closed have la: "list_all (validValue b) items" by (rule closed_array_items)
      from 5(2) [OF refl Some ag la]
      have si: "simulatesItems b (nextRef s)
          (pickItems_store n s schema frags vars ?P fieldNode items 0)
          (pickItems n h0 schema frags vars ?P fieldNode items 0)" .
      have S: "?pickedS =
          (case pickItems_store n s schema frags vars ?P fieldNode items 0 of
              None \<Rightarrow> None
            | Some (Inl e, s1) \<Rightarrow> Some (Inl e, s1)
            | Some (Inr vs, s1) \<Rightarrow>
                Some (Inr (JRef (fst (alloc s1 (HArr vs)))), snd (alloc s1 (HArr vs))))"
        unfolding Some by simp
      have V: "?pickedV =
          (case pickItems n h0 schema frags vars ?P fieldNode items 0 of
              None \<Rightarrow> None
            | Some (Inl e) \<Rightarrow> Some (Inl e)
            | Some (Inr vs) \<Rightarrow> Some (Inr (RArr vs)))"
        unfolding hv by simp
      show ?thesis
      proof (cases "pickItems_store n s schema frags vars ?P fieldNode items 0")
        case None
        with si show ?thesis unfolding S V by (simp add: simulatesItems_def simulates_def)
      next
        case ys: (Some ys)
        obtain y s0 where "ys = (y, s0)" by (cases ys)
        with ys have y: "pickItems_store n s schema frags vars ?P fieldNode items 0 = Some (y, s0)"
          by simp
        from pick_store_frame(4) [OF y] have f0: "frame s s0" .
        show ?thesis
        proof (cases y)
          case (Inl e)
          with si y show ?thesis unfolding S V by (simp add: simulatesItems_def simulates_def)
        next
          case (Inr vs)
          with si y obtain rs where
            rs: "pickItems n h0 schema frags vars ?P fieldNode items 0 = Some (Inr rs)"
            and ri: "readsItems (cells s0) b (nextRef s) (nextRef s0) vs rs"
            by (auto simp: simulatesItems_def split: option.splits sum.splits)
          from ri frame_nextRef [OF f0]
          have "reads (cells (snd (alloc s0 (HArr vs)))) b (nextRef s)
                  (nextRef (snd (alloc s0 (HArr vs))))
                  (JRef (fst (alloc s0 (HArr vs)))) (RArr rs)"
            by (rule reads_alloc_array)
          with y Inr rs show ?thesis unfolding S V by (simp add: simulates_def)
        qed
      qed
    qed
  next
    fix x s1
    assume picked: "?pickedS = Some (x, s1)"
    show "frame s s1"
    proof (cases "array_items (cells s) ?d")
      case None
      with picked have "pickField_store n s schema frags vars ?P fieldNode ?d = Some (x, s1)"
        by simp
      then show ?thesis by (rule pick_store_frame(1))
    next
      case (Some items)
      with picked obtain y s0 where
        y: "pickItems_store n s schema frags vars ?P fieldNode items 0 = Some (y, s0)"
        by (auto split: option.splits)
      from pick_store_frame(4) [OF y] have f0: "frame s s0" .
      show ?thesis
      proof (cases y)
        case (Inl e)
        with picked Some y f0 show ?thesis by simp
      next
        case (Inr vs)
        with picked Some y have "s1 = snd (alloc s0 (HArr vs))" by simp
        with f0 frame_alloc [of s0 "HArr vs"] show ?thesis by (auto intro: frame_trans)
      qed
    qed
  qed
  show ?case
  proof (cases ?pickedS)
    case None
    with sim have "?pickedV = None" by (simp add: simulates_def)
    with None show ?thesis unfolding lhs rhs by (simp add: simulates_def)
  next
    case xs: (Some xs)
    obtain x s1 where "xs = (x, s1)" by (cases xs)
    with xs have picked: "?pickedS = Some (x, s1)" by simp
    from fr [OF picked] have f1: "frame s s1" .
    show ?thesis
    proof (cases x)
      case (Inl e)
      with sim picked have "?pickedV = Some (Inl e)" by (simp add: simulates_def)
      with picked Inl show ?thesis unfolding lhs rhs by (simp add: simulates_def)
    next
      case (Inr v)
      with sim picked obtain r where r: "?pickedV = Some (Inr r)"
        and rv: "reads (cells s1) b (nextRef s) (nextRef s1) v r"
        by (auto simp: simulates_def split: option.splits sum.splits)
      let ?s2 = "setProperty s1 pickedData ?k v"
      have ag2: "agrees b ?s2 h0"
        using agrees_frame [OF ag f1] bp by (rule agrees_setProperty)
      have plt2: "pickedData < nextRef ?s2" using plt frame_nextRef [OF f1] by simp
      have c1: "cells s1 pickedData = Some (HObj kvs)"
        using frame_cells [OF f1 plt] c by simp
      have c2: "cells ?s2 pickedData = Some (HObj (AList.update ?k v kvs))"
        by (simp add: cells_setProperty [OF c1])
      have rf1: "readsFields (cells s1) b (Suc pickedData) (nextRef s1) kvs acc"
        using rf f1 by (rule readsFields_frame)
      have lo: "Suc pickedData \<le> nextRef s" using plt by simp
      have rf2: "readsFields (cells ?s2) b (Suc pickedData) (nextRef ?s2)
                   (AList.update ?k v kvs) (AList.update ?k r acc)"
        using c1 rf1 rv lo by (rule readsFields_setProperty)
      from 5(3) [OF refl refl picked refl Inr ag2 ab bp plt2 c2 rf2]
      have "simulates b pickedData
              (pickNodes_store n ?s2 schema frags vars path a rest pickedData)
              (pickNodes n h0 schema frags vars path a rest (AList.update ?k r acc))" .
      with picked Inr r show ?thesis unfolding lhs rhs by simp
    qed
  qed
next
  case (6 n s schema frags vars prefix fieldNode i)
  show ?case by (simp add: simulatesItems_def)
next
  case (7 n s schema frags vars prefix fieldNode x xs i)
  let ?P = "prefix @ ''['' @ show_nat i @ '']''"
  note ag = "7.prems"(1)
  from "7.prems"(2) have vx: "validValue b x" and vxs: "list_all (validValue b) xs"
    by simp_all
  from 7(1) [OF ag vx]
  have sim1: "simulates b (nextRef s)
      (pickField_store n s schema frags vars ?P fieldNode x)
      (pickField n h0 schema frags vars ?P fieldNode x)" .
  show ?case
  proof (cases "pickField_store n s schema frags vars ?P fieldNode x")
    case None
    with sim1 show ?thesis by (simp add: simulatesItems_def simulates_def)
  next
    case ys: (Some ys)
    obtain y s1 where "ys = (y, s1)" by (cases ys)
    with ys have y: "pickField_store n s schema frags vars ?P fieldNode x = Some (y, s1)"
      by simp
    from pick_store_frame(1) [OF y] have f1: "frame s s1" .
    show ?thesis
    proof (cases y)
      case (Inl e)
      with sim1 y show ?thesis by (simp add: simulatesItems_def simulates_def)
    next
      case (Inr v)
      with sim1 y obtain r where
        r: "pickField n h0 schema frags vars ?P fieldNode x = Some (Inr r)"
        and rv: "reads (cells s1) b (nextRef s) (nextRef s1) v r"
        by (auto simp: simulates_def split: option.splits sum.splits)
      have ag1: "agrees b s1 h0" using ag f1 by (rule agrees_frame)
      from 7(2) [OF y refl Inr ag1 vxs]
      have sim2: "simulatesItems b (nextRef s1)
          (pickItems_store n s1 schema frags vars prefix fieldNode xs (Suc i))
          (pickItems n h0 schema frags vars prefix fieldNode xs (Suc i))" .
      show ?thesis
      proof (cases "pickItems_store n s1 schema frags vars prefix fieldNode xs (Suc i)")
        case None
        with sim2 y Inr r show ?thesis by (simp add: simulatesItems_def)
      next
        case zs: (Some zs)
        obtain z s2 where "zs = (z, s2)" by (cases zs)
        with zs have
          z: "pickItems_store n s1 schema frags vars prefix fieldNode xs (Suc i) = Some (z, s2)"
          by simp
        from pick_store_frame(4) [OF z] have f2: "frame s1 s2" .
        show ?thesis
        proof (cases z)
          case e: (Inl e)
          with sim2 y Inr r z show ?thesis by (simp add: simulatesItems_def)
        next
          case vs: (Inr vs)
          with sim2 z obtain rs where
            rs: "pickItems n h0 schema frags vars prefix fieldNode xs (Suc i) = Some (Inr rs)"
            and rvs: "readsItems (cells s2) b (nextRef s1) (nextRef s2) vs rs"
            by (auto simp: simulatesItems_def split: option.splits sum.splits)
          have "reads (cells s2) b (nextRef s) (nextRef s2) v r"
            using rv f2 by (rule reads_frame)
          moreover have "readsItems (cells s2) b (nextRef s) (nextRef s2) vs rs"
            by (rule reads_widen(3) [OF rvs frame_nextRef [OF f1] order_refl])
          ultimately show ?thesis using y Inr r z vs rs by (simp add: simulatesItems_def)
        qed
      qed
    qed
  qed
qed

lemma agrees_self: "agrees (nextRef s) s (cells s)"
  by (simp add: agrees_def)

lemma simulates_again:
  assumes one: "simulates b lo (Some (x1, s1)) V"
    and two: "simulates b (nextRef s1) S2 V"
    and fr: "\<And>x2 s2. S2 = Some (x2, s2) \<Longrightarrow> frame s1 s2"
  shows "\<exists>x2 s2. S2 = Some (x2, s2) \<and> frame s1 s2 \<and>
           (case x1 of
              Inl e \<Rightarrow> x2 = Inl e
            | Inr v1 \<Rightarrow>
                (\<exists>v2 r. x2 = Inr v2 \<and> V = Some (Inr r) \<and>
                   reads (cells s2) b lo (nextRef s1) v1 r \<and>
                   reads (cells s2) b (nextRef s1) (nextRef s2) v2 r))"
proof -
  from one have "V \<noteq> None" by (auto simp: simulates_def split: sum.splits option.splits)
  with two obtain x2 s2 where S2: "S2 = Some (x2, s2)"
    by (cases S2) (auto simp: simulates_def)
  from fr [OF S2] have f: "frame s1 s2" .
  show ?thesis
  proof (cases x1)
    case (Inl e)
    with one have V: "V = Some (Inl e)" by (simp add: simulates_def)
    with two S2 have "x2 = Inl e" by (cases x2) (simp_all add: simulates_def)
    with S2 f Inl show ?thesis by simp
  next
    case (Inr v1)
    with one obtain r where V: "V = Some (Inr r)"
      and r1: "reads (cells s1) b lo (nextRef s1) v1 r"
      by (auto simp: simulates_def split: sum.splits option.splits)
    from two S2 V obtain v2 where x2: "x2 = Inr v2"
      and r2: "reads (cells s2) b (nextRef s1) (nextRef s2) v2 r"
      by (cases x2) (simp_all add: simulates_def)
    have "reads (cells s2) b lo (nextRef s1) v1 r"
      by (rule reads_stable(1) [OF r1]) (use f in \<open>simp add: frame_def\<close>)
    with S2 f Inr V x2 r2 show ?thesis by simp
  qed
qed

text \<open>
  C9. \<open>pickOperationFields\<close> never mutates its input payload, and its output is a
  deterministic function of its inputs. Over a store whose objects all live below
  the next free address, a call that returns or throws leaves every object that
  existed before the call as it was, so every own property of every object reachable
  from the payload is unchanged. A second call with the same payload, document,
  operation name, variables and schema, made in the store that the first call left,
  returns as well, again without touching an existing object, and with the same
  outcome: the same error, or a value that reads as the same projected value as the
  value of the first call, which is the value of \<open>pickOperationFields\<close> on the
  payload.
\<close>

theorem C9_no_mutation_deterministic:
  assumes closed: "closedBelow (cells s) (nextRef s)" and data: "data < nextRef s"
    and first: "pickOperationFields_store fuel s data doc opName vars schema = Some (x1, s1)"
  shows "(\<forall>a<nextRef s. cells s1 a = cells s a)
       \<and> (\<exists>x2 s2. pickOperationFields_store fuel s1 data doc opName vars schema = Some (x2, s2)
             \<and> (\<forall>a<nextRef s1. cells s2 a = cells s1 a)
             \<and> (case x1 of
                   Inl e \<Rightarrow> x2 = Inl e
                 | Inr v1 \<Rightarrow>
                     (\<exists>v2 r. x2 = Inr v2
                        \<and> pickOperationFields fuel (cells s) data doc opName vars schema
                            = Some (Inr r)
                        \<and> reads (cells s2) (nextRef s) (nextRef s) (nextRef s1) v1 r
                        \<and> reads (cells s2) (nextRef s) (nextRef s1) (nextRef s2) v2 r)))"
proof -
  obtain frs ops where ed: "extractDefinitions doc = (frs, ops)"
    by (cases "extractDefinitions doc")
  show ?thesis
  proof (cases "map_of ops (operationKey opName)")
    case None
    with first ed have "s1 = s" and "\<exists>e. x1 = Inl e"
      by (auto simp: pickOperationFields_store_def)
    with first None ed show ?thesis
      by (auto simp: pickOperationFields_store_def)
  next
    case (Some opDef)
    let ?vs = "case vars of None \<Rightarrow> [] | Some vs \<Rightarrow> vs"
    let ?rt = "getRootType schema (operation opDef)"
    let ?sels = "operationSelectionSet opDef"
    let ?V = "pickSelectionSet fuel (cells s) schema frs ?vs ''data'' data ?sels ?rt"
    let ?S2 = "pickSelectionSet_store fuel s1 schema frs ?vs ''data'' data ?sels ?rt"
    have V: "pickOperationFields fuel (cells s) data doc opName vars schema = ?V"
      using ed Some by (simp add: pickOperationFields_def)
    have S2: "pickOperationFields_store fuel s1 data doc opName vars schema = ?S2"
      using ed Some by (simp add: pickOperationFields_store_def)
    from first ed Some have
      one: "pickSelectionSet_store fuel s schema frs ?vs ''data'' data ?sels ?rt = Some (x1, s1)"
      by (simp add: pickOperationFields_store_def)
    from pick_store_frame(2) [OF one] have f1: "frame s s1" .
    from pick_store_simulates(2) [OF closed agrees_self data, of fuel schema frs ?vs "''data''" ?sels ?rt]
    have sim1: "simulates (nextRef s) (nextRef s) (Some (x1, s1)) ?V" unfolding one .
    have ag1: "agrees (nextRef s) s1 (cells s)" using agrees_self f1 by (rule agrees_frame)
    from pick_store_simulates(2) [OF closed ag1 data]
    have sim2: "simulates (nextRef s) (nextRef s1) ?S2 ?V" .
    have "\<And>x2 s2. ?S2 = Some (x2, s2) \<Longrightarrow> frame s1 s2"
      by (rule pick_store_frame(2))
    with sim1 sim2
    have "\<exists>x2 s2. ?S2 = Some (x2, s2) \<and> frame s1 s2 \<and>
           (case x1 of
              Inl e \<Rightarrow> x2 = Inl e
            | Inr v1 \<Rightarrow>
                (\<exists>v2 r. x2 = Inr v2 \<and> ?V = Some (Inr r) \<and>
                   reads (cells s2) (nextRef s) (nextRef s) (nextRef s1) v1 r \<and>
                   reads (cells s2) (nextRef s) (nextRef s1) (nextRef s2) v2 r))"
      by (rule simulates_again)
    then obtain x2 s2 where "?S2 = Some (x2, s2)" and "frame s1 s2"
      and "(case x1 of
              Inl e \<Rightarrow> x2 = Inl e
            | Inr v1 \<Rightarrow>
                (\<exists>v2 r. x2 = Inr v2 \<and> ?V = Some (Inr r) \<and>
                   reads (cells s2) (nextRef s) (nextRef s) (nextRef s1) v1 r \<and>
                   reads (cells s2) (nextRef s) (nextRef s1) (nextRef s2) v2 r))"
      by blast
    with f1 show ?thesis unfolding V S2 by (auto simp: frame_def)
  qed
qed

theorem C9_no_mutation_deterministic_witness:
  "closedBelow (cells jackJillStore) (nextRef jackJillStore) \<and> 0 < nextRef jackJillStore
   \<and> (\<exists>s1. pickOperationFields_store 3 jackJillStore 0 jackJillQuery None None None =
            Some (Inr (JRef 5), s1)
        \<and> (\<forall>a<nextRef jackJillStore. cells s1 a = cells jackJillStore a)
        \<and> (\<exists>x2 s2. pickOperationFields_store 3 s1 0 jackJillQuery None None None = Some (x2, s2)
              \<and> (\<forall>a<nextRef s1. cells s2 a = cells s1 a)
              \<and> (\<exists>v2 r. x2 = Inr v2
                    \<and> pickOperationFields 3 (cells jackJillStore) 0 jackJillQuery None None None
                        = Some (Inr r)
                    \<and> reads (cells s2) (nextRef jackJillStore) (nextRef jackJillStore)
                        (nextRef s1) (JRef 5) r
                    \<and> reads (cells s2) (nextRef jackJillStore) (nextRef s1) (nextRef s2)
                        v2 r)))"
proof -
  have c: "closedBelow (cells jackJillStore) (nextRef jackJillStore)"
    by (simp add: closedBelow_def jackJillStore_def jackJillHeap_def validValue_def)
  have d: "0 < nextRef jackJillStore" by (simp add: jackJillStore_def)
  have "\<exists>s1. pickOperationFields_store 3 jackJillStore 0 jackJillQuery None None None =
     Some (Inr (JRef 5), s1)"
    by (simp add: pickOperationFields_store_def jackJillStore_def jackJillHeap_def jackJillQuery_def
        extractDefinitions_def operationKey_def anonymousOperationKey_def collectFields_def
        fieldNodes_def getRootType_def getType_def runtimeObjectOf_def get_prop_def
        array_items_def shouldIncludeNode_def getFieldEntryKey_def pickField_store.simps
        alloc_def setProperty_def Let_def eval_nat_numeral)
  then obtain s1 where
    f: "pickOperationFields_store 3 jackJillStore 0 jackJillQuery None None None =
          Some (Inr (JRef 5), s1)" ..
  from C9_no_mutation_deterministic [OF c d f] c d f show ?thesis by auto
qed
section \<open>Directives\<close>




section \<open>Conditional fragments without a schema\<close>





end
